theory Spec2Isabelle
  imports Main
begin

section \<open>Regular expressions as \<^verbatim>\<open>re\<close> evaluates them\<close>

text \<open>
  \<^verbatim>\<open>dvc/repo/artifacts.py\<close> builds its name grammar from string constants and
  compiles them with Python's \<^verbatim>\<open>re\<close> module. The patterns use character
  classes, concatenation, \<^verbatim>\<open>?\<close>, \<^verbatim>\<open>*\<close>, \<^verbatim>\<open>+\<close>, a literal and the anchors
  \<^verbatim>\<open>^\<close> and \<^verbatim>\<open>$\<close> (no flags). Strings are lists of bytes; every character the
  classes mention, the separator and the line feed are single bytes, and no byte
  of a multi-byte code point lies in a class.
\<close>

datatype cset_item = Range char char | Single char

datatype regex =
    Class "cset_item list"
  | Lit char
  | Cat regex regex
  | Opt regex
  | Star regex
  | Plus regex
  | Bol
  | Eol

fun in_item :: "char \<Rightarrow> cset_item \<Rightarrow> bool" where
  "in_item c (Range lo hi) = ((of_char lo :: nat) \<le> of_char c \<and> (of_char c :: nat) \<le> of_char hi)"
| "in_item c (Single d) = (c = d)"

definition in_class :: "char \<Rightarrow> cset_item list \<Rightarrow> bool" where
  "in_class c items = list_ex (in_item c) items"

definition line_feed :: char where
  "line_feed = CHR 0x0A"

text \<open>
  A position is the number of characters already consumed from the subject
  together with the rest of the subject. \<open>ends r p\<close> lists the positions at
  which a match of \<open>r\<close> that starts at \<open>p\<close> can end, in the order the
  backtracking matcher tries them (greedy first). \<^verbatim>\<open>^\<close> matches only at offset
  0; \<^verbatim>\<open>$\<close> matches at the end of the subject and just before a line feed that
  is the subject's last character. A repetition stops iterating once an
  iteration consumes nothing.
\<close>

type_synonym pos = "nat \<times> string"

fun rank :: "regex \<Rightarrow> nat" where
  "rank (Cat a b) = Suc (rank a + rank b)"
| "rank (Opt a) = Suc (rank a)"
| "rank (Star a) = Suc (rank a)"
| "rank (Plus a) = Suc (Suc (rank a))"
| "rank r = 0"

function ends :: "regex \<Rightarrow> pos \<Rightarrow> pos list" where
  "ends (Class cs) (i, []) = []"
| "ends (Class cs) (i, x # xs) = (if in_class x cs then [(Suc i, xs)] else [])"
| "ends (Lit c) (i, []) = []"
| "ends (Lit c) (i, x # xs) = (if x = c then [(Suc i, xs)] else [])"
| "ends (Cat a b) p = concat (map (ends b) (ends a p))"
| "ends (Opt a) p = ends a p @ [p]"
| "ends (Star a) p =
     concat (map (ends (Star a))
       (filter (\<lambda>q. length (snd q) < length (snd p)) (ends a p))) @ [p]"
| "ends (Plus a) p = concat (map (ends (Star a)) (ends a p))"
| "ends Bol (i, xs) = (if i = 0 then [(i, xs)] else [])"
| "ends Eol (i, xs) = (if xs = [] \<or> xs = [line_feed] then [(i, xs)] else [])"
  by pat_completeness auto
termination
  by (relation "measures [\<lambda>(r, p). rank r, \<lambda>(r, p). length (snd p)]") auto

text \<open>
  \<^verbatim>\<open>pattern.search(s)\<close> tries every start offset from 0 to \<open>len(s)\<close>; the
  source only ever looks at the truth value of the result.
\<close>

fun starts :: "nat \<Rightarrow> string \<Rightarrow> pos list" where
  "starts i [] = [(i, [])]"
| "starts i (x # xs) = (i, x # xs) # starts (Suc i) xs"

definition search :: "regex \<Rightarrow> string \<Rightarrow> bool" where
  "search r s = list_ex (\<lambda>p. ends r p \<noteq> []) (starts 0 s)"

section \<open>The name grammar of the source\<close>

definition SEPARATOR_IN_NAME :: char where
  "SEPARATOR_IN_NAME = CHR '':''"

definition DIRNAME :: regex where
  "DIRNAME = Plus (Class [Range CHR ''a'' CHR ''z'', Range CHR ''0'' CHR ''9'',
     Single CHR ''-'', Single CHR ''_'', Single CHR ''.'', Single CHR ''/''])"

definition NAME :: regex where
  "NAME = Cat (Class [Range CHR ''a'' CHR ''z'', Range CHR ''0'' CHR ''9''])
     (Opt (Cat
        (Star (Class [Range CHR ''a'' CHR ''z'', Range CHR ''0'' CHR ''9'',
           Single CHR ''-'', Single CHR ''/'']))
        (Class [Range CHR ''a'' CHR ''z'', Range CHR ''0'' CHR ''9''])))"

definition NAME_RE :: regex where
  "NAME_RE = Cat Bol (Cat NAME Eol)"

definition FULLNAME :: regex where
  "FULLNAME = Cat (Opt (Cat DIRNAME (Lit SEPARATOR_IN_NAME))) NAME"

definition FULLNAME_RE :: regex where
  "FULLNAME_RE = Cat Bol (Cat FULLNAME Eol)"

definition name_is_compatible :: "string \<Rightarrow> bool" where
  "name_is_compatible name = search NAME_RE name"


text \<open>
  \<^verbatim>\<open>wrong_name_message % name\<close>: the message with the name substituted for
  \<^verbatim>\<open>%s\<close>.
\<close>

definition wrong_name_message :: "string \<Rightarrow> string" where
  "wrong_name_message name =
     ''Can't use '' @ [CHR 0x27] @ name @ [CHR 0x27] @ '' as artifact name (ID).''
     @ '' You can use letters and numbers, and use '' @ [CHR 0x27] @ ''-'' @ [CHR 0x27]
     @ '' as separator'' @ '' (but not at the start or end).''"

text \<open>
  The logger is a list of emitted warnings; \<open>check_name_format\<close> appends to it
  and never raises.
\<close>

definition check_name_format :: "string \<Rightarrow> string list \<Rightarrow> string list" where
  "check_name_format name log =
     (if \<not> name_is_compatible name then log @ [wrong_name_message name] else log)"

section \<open>Paths\<close>

text \<open>
  \<^verbatim>\<open>pathlib.Path\<close> on a POSIX system: a path is its root (empty for a relative
  path, one or two slashes for an absolute one) and its components. Parsing a
  string drops empty components and \<^verbatim>\<open>.\<close> components and keeps \<^verbatim>\<open>..\<close>.
\<close>

record pure_path =
  root :: string
  parts :: "string list"

fun split_sep :: "char \<Rightarrow> string \<Rightarrow> string list" where
  "split_sep sep [] = [[]]"
| "split_sep sep (c # cs) =
     (if c = sep then [] # split_sep sep cs
      else (case split_sep sep cs of [] \<Rightarrow> [[c]] | w # ws \<Rightarrow> (c # w) # ws))"

definition splitroot :: "string \<Rightarrow> string \<times> string" where
  "splitroot part =
     (if part \<noteq> [] \<and> hd part = CHR ''/'' then
        (let stripped_part = dropWhile (\<lambda>c. c = CHR ''/'') part in
         if length part - length stripped_part = 2 then (''//'', stripped_part)
         else (''/'', stripped_part))
      else ([], part))"

definition Path :: "string \<Rightarrow> pure_path" where
  "Path s = (case splitroot s of (r, rel) \<Rightarrow>
     \<lparr>root = r, parts = filter (\<lambda>x. x \<noteq> [] \<and> x \<noteq> ''.'') (split_sep CHR ''/'' rel)\<rparr>)"

definition is_absolute :: "pure_path \<Rightarrow> bool" where
  "is_absolute p = (root p \<noteq> [])"

definition path_name :: "pure_path \<Rightarrow> string" where
  "path_name p = (if parts p = [] then [] else last (parts p))"

definition path_parent :: "pure_path \<Rightarrow> pure_path" where
  "path_parent p = (if parts p = [] then p else p\<lparr>parts := butlast (parts p)\<rparr>)"

text \<open>\<^verbatim>\<open>path / other\<close>: an absolute right operand replaces the left one.\<close>

definition joinpath :: "pure_path \<Rightarrow> string \<Rightarrow> pure_path" where
  "joinpath p s = (let q = Path s in
     if root q \<noteq> [] then q else p\<lparr>parts := parts p @ parts q\<rparr>)"

fun join_sep :: "string list \<Rightarrow> string" where
  "join_sep [] = []"
| "join_sep [x] = x"
| "join_sep (x # y # ys) = x @ ''/'' @ join_sep (y # ys)"

definition path_str :: "pure_path \<Rightarrow> string" where
  "path_str p =
     (if root p \<noteq> [] then root p @ join_sep (parts p)
      else if parts p = [] then ''.'' else join_sep (parts p))"

datatype error =
    InvalidArgumentError string
  | ValueError
  | AttributeError
  | KeyError
  | TypeError

text \<open>
  \<^verbatim>\<open>relative_to\<close> compares the two paths component by component, the root
  counting as components of its own, and raises \<^verbatim>\<open>ValueError\<close> when the other
  path is not a leading part of this one.
\<close>

definition abs_parts :: "pure_path \<Rightarrow> string list" where
  "abs_parts p = (if root p \<noteq> [] then [[], root p] @ parts p else parts p)"

definition relative_to :: "pure_path \<Rightarrow> pure_path \<Rightarrow> error + pure_path" where
  "relative_to p other =
     (let n = length (abs_parts other) in
      if (if n = 0 then root p \<noteq> [] else take n (abs_parts p) \<noteq> abs_parts other)
      then Inl ValueError
      else Inr \<lparr>root = (if n = 1 then root p else []), parts = drop n (abs_parts p)\<rparr>)"

text \<open>
  The test \<^verbatim>\<open>relative_to\<close> makes on an absolute path: the directory is a leading
  part of the path as the two are written, same root and the directory's
  components first, with \<^verbatim>\<open>..\<close> left as it stands.
\<close>

definition lexically_under :: "pure_path \<Rightarrow> pure_path \<Rightarrow> bool" where
  "lexically_under p dir \<longleftrightarrow> root p = root dir \<and> take (length (parts dir)) (parts p) = parts dir"

text \<open>
  Where an absolute path leads: each \<^verbatim>\<open>..\<close> component steps back over the
  component before it, and at the root it stays at the root (symbolic links
  aside). An absolute path is located under a directory when, so resolved, it
  starts with the resolved components of the directory.
\<close>

fun resolve_dots :: "string list \<Rightarrow> string list \<Rightarrow> string list" where
  "resolve_dots seen [] = seen"
| "resolve_dots seen (c # cs) =
     (if c = ''..'' then resolve_dots (butlast seen) cs else resolve_dots (seen @ [c]) cs)"

definition located_under :: "pure_path \<Rightarrow> pure_path \<Rightarrow> bool" where
  "located_under p dir \<longleftrightarrow> root p = root dir \<and>
     take (length (resolve_dots [] (parts dir))) (resolve_dots [] (parts p))
       = resolve_dots [] (parts dir)"

section \<open>Documents, the file system and the collaborators\<close>

text \<open>
  A YAML value is a scalar, a sequence or a mapping; a mapping keeps the order
  of its keys, as a Python dict does. \<open>dict_set\<close> is \<^verbatim>\<open>d[k] = v\<close>: an existing
  key keeps its place, a new key goes last.
\<close>

datatype yaml = Scalar string | Sequence "yaml list" | Mapping "(string \<times> yaml) list"

type_synonym document = "(string \<times> yaml) list"

fun dict_set :: "'k \<Rightarrow> 'v \<Rightarrow> ('k \<times> 'v) list \<Rightarrow> ('k \<times> 'v) list" where
  "dict_set k v [] = [(k, v)]"
| "dict_set k v ((k', v') # d) = (if k' = k then (k, v) # d else (k', v') # dict_set k v d)"

definition setdefault :: "'k \<Rightarrow> 'v \<Rightarrow> ('k \<times> 'v) list \<Rightarrow> 'v \<times> ('k \<times> 'v) list" where
  "setdefault k dflt d = (case map_of d k of Some v \<Rightarrow> (v, d) | None \<Rightarrow> (dflt, d @ [(k, dflt)]))"

text \<open>
  The world the code acts on: which paths are directories, the parsed content of
  the manifest files, and the arguments of the calls made to
  \<^verbatim>\<open>scm_context.track_file\<close>, oldest first. A path reaches the operating system
  as it is written, so the world is indexed by path values.
\<close>

record world =
  is_dir :: "pure_path \<Rightarrow> bool"
  files :: "pure_path \<Rightarrow> document option"
  tracked :: "string option list"

text \<open>
  What the source takes from the rest of the repository: the project root
  \<^verbatim>\<open>repo.root_dir\<close>, the constants \<^verbatim>\<open>Repo.DVC_DIR\<close> and \<^verbatim>\<open>PROJECT_FILE\<close>,
  \<^verbatim>\<open>dvc.utils.relpath\<close>, the constructor \<^verbatim>\<open>Artifact(**value)\<close>, which may raise,
  and \<^verbatim>\<open>Artifact.to_dict\<close>. They are parameters.
\<close>

record ('r, 'a) env =
  root_dir :: string
  DVC_DIR :: string
  PROJECT_FILE :: string
  relpath :: "string \<Rightarrow> string \<Rightarrow> string"
  Artifact :: "'r \<Rightarrow> error + 'a"
  to_dict :: "'a \<Rightarrow> yaml"

text \<open>
  Modelled from the spec: \<^verbatim>\<open>dvc.utils.serialize.modify_yaml\<close> is not in the source
  file. It is the scoped read-modify-write session of the specification: the
  body receives the document of the file (an empty mapping when the file is
  absent), and the changed document is written only when the body finishes
  without raising.
\<close>

definition modify_yaml ::
  "pure_path \<Rightarrow> (document \<Rightarrow> error + document \<times> 'b) \<Rightarrow> world \<Rightarrow> (error + 'b) \<times> world" where
  "modify_yaml path body w =
     (let data = (case files w path of None \<Rightarrow> [] | Some d \<Rightarrow> d) in
      case body data of
        Inl e \<Rightarrow> (Inl e, w)
      | Inr (data', r) \<Rightarrow> (Inr r, w\<lparr>files := (files w)(path \<mapsto> data')\<rparr>))"

text \<open>
  Modelled from the spec: \<^verbatim>\<open>scm_context.track_file\<close> is not in the source file.
  It is the request to stage a file; the model records the argument of the call.
\<close>

definition track_file :: "string option \<Rightarrow> world \<Rightarrow> world" where
  "track_file arg w = w\<lparr>tracked := tracked w @ [arg]\<rparr>"

section \<open>The nested repository guard\<close>

function walk_up :: "string \<Rightarrow> world \<Rightarrow> pure_path \<Rightarrow> error + unit" where
  "walk_up dvc_dir w path =
     (if path_name path \<noteq> [] then
        (if is_dir w (joinpath path dvc_dir) then
           Inl (InvalidArgumentError
             (''Nested DVC repos like '' @ path_str path @ '' are not supported.''))
         else walk_up dvc_dir w (path_parent path))
      else Inr ())"
  by pat_completeness auto
termination
  by (relation "measure (\<lambda>(d, w, p). length (parts p))")
     (auto simp: path_name_def path_parent_def split: if_splits)

definition check_for_nested_dvc_repo :: "string \<Rightarrow> world \<Rightarrow> pure_path \<Rightarrow> error + unit" where
  "check_for_nested_dvc_repo dvc_dir w dvcfile =
     (if is_absolute dvcfile then Inl (InvalidArgumentError ''Use relative path to dvc.yaml.'')
      else walk_up dvc_dir w (path_parent dvcfile))"

section \<open>Reading and adding artifacts\<close>

type_synonym 'a registry = "(string \<times> (string \<times> 'a) list) list"

fun read_names ::
  "('r, 'a) env \<Rightarrow> string \<Rightarrow> (string \<times> 'r) list \<Rightarrow> string list \<Rightarrow> 'a registry
     \<Rightarrow> string list \<times> (error + 'a registry)" where
  "read_names E dvcyaml [] log artifacts = (log, Inr artifacts)"
| "read_names E dvcyaml ((name, value) # rest) log artifacts =
     (let log' = check_name_format name log in
      case Artifact E value of
        Inl e \<Rightarrow> (log', Inl e)
      | Inr a \<Rightarrow>
          (case map_of artifacts dvcyaml of
             None \<Rightarrow> (log', Inl KeyError)
           | Some inner \<Rightarrow>
               read_names E dvcyaml rest log' (dict_set dvcyaml (dict_set name a inner) artifacts)))"

fun read_files ::
  "('r, 'a) env \<Rightarrow> (string \<times> (string \<times> 'r) list) list \<Rightarrow> string list \<Rightarrow> 'a registry
     \<Rightarrow> string list \<times> (error + 'a registry)" where
  "read_files E [] log artifacts = (log, Inr artifacts)"
| "read_files E ((dvcfile, dvcfile_artifacts) # rest) log artifacts =
     (let dvcyaml = relpath E dvcfile (root_dir E) in
      case read_names E dvcyaml dvcfile_artifacts log (dict_set dvcyaml [] artifacts) of
        (log', Inl e) \<Rightarrow> (log', Inl e)
      | (log', Inr artifacts') \<Rightarrow> read_files E rest log' artifacts')"

text \<open>
  \<open>read\<close> takes the index (\<^verbatim>\<open>repo.index._artifacts\<close>, in iteration order) and the
  log so far, and returns the log and either the error raised or the registry.
\<close>

definition read ::
  "('r, 'a) env \<Rightarrow> (string \<times> (string \<times> 'r) list) list \<Rightarrow> string list
     \<Rightarrow> string list \<times> (error + 'a registry)" where
  "read E index log = read_files E index log []"

text \<open>\<^verbatim>\<open>dvcfile or PROJECT_FILE\<close>: \<^verbatim>\<open>None\<close> and the empty string are both falsy.\<close>

definition py_or :: "string option \<Rightarrow> string \<Rightarrow> string" where
  "py_or a b = (case a of None \<Rightarrow> b | Some s \<Rightarrow> if s = [] then b else s)"

text \<open>
  The body of the \<^verbatim>\<open>with modify_yaml(dvcyaml) as data\<close> block. \<^verbatim>\<open>update\<close> exists
  on a mapping only; on any other value the attribute lookup raises. The block
  yields the changed document and the \<^verbatim>\<open>artifacts\<close> mapping.
\<close>

definition add_body :: "string \<Rightarrow> yaml \<Rightarrow> document \<Rightarrow> error + document \<times> (string \<times> yaml) list" where
  "add_body name v data =
     (case setdefault ''artifacts'' (Mapping []) data of
        (Mapping artifacts, data') \<Rightarrow>
          (let artifacts' = dict_set name v artifacts in
           Inr (dict_set ''artifacts'' (Mapping artifacts') data', artifacts'))
      | (_, data') \<Rightarrow> Inl AttributeError)"

definition add ::
  "('r, 'a) env \<Rightarrow> string \<Rightarrow> 'a \<Rightarrow> string option \<Rightarrow> world \<Rightarrow> (error + yaml option) \<times> world" where
  "add E name artifact dvcfile w =
     (if \<not> name_is_compatible name then (Inl (InvalidArgumentError (wrong_name_message name)), w)
      else
        (let dvcyaml = Path (py_or dvcfile (PROJECT_FILE E)) in
         case (if is_absolute dvcyaml then relative_to dvcyaml (Path (root_dir E)) else Inr dvcyaml) of
           Inl e \<Rightarrow> (Inl e, w)
         | Inr rel \<Rightarrow>
             (case check_for_nested_dvc_repo (DVC_DIR E) w rel of
                Inl e \<Rightarrow> (Inl e, w)
              | Inr u \<Rightarrow>
                  (case modify_yaml dvcyaml (add_body name (to_dict E artifact)) w of
                     (Inl e, w') \<Rightarrow> (Inl e, w')
                   | (Inr artifacts, w') \<Rightarrow>
                       (Inr (map_of artifacts name), track_file dvcfile w')))))"


section \<open>The properties in words\<close>

text \<open>
  The grammars as sets of strings, without the matcher: a name is non-empty,
  starts and ends with a lowercase letter or a digit, and has only permitted
  characters in between. \<open>base_name_grammar\<close> is the grammar the specification
  writes, \<^verbatim>\<open>^[a-z0-9]([a-z0-9-]*[a-z0-9])?$\<close>; \<open>name_grammar\<close> is the one the
  source's \<^verbatim>\<open>NAME\<close> pattern writes, whose inner class also holds the slash.
\<close>

definition lowercase_letter :: "char \<Rightarrow> bool" where
  "lowercase_letter c = (c \<in> set ''abcdefghijklmnopqrstuvwxyz'')"

definition digit :: "char \<Rightarrow> bool" where
  "digit c = (c \<in> set ''0123456789'')"

definition edge_char :: "char \<Rightarrow> bool" where
  "edge_char c = (lowercase_letter c \<or> digit c)"

definition spec_inner_char :: "char \<Rightarrow> bool" where
  "spec_inner_char c = (lowercase_letter c \<or> digit c \<or> c = CHR ''-'')"

definition inner_char :: "char \<Rightarrow> bool" where
  "inner_char c = (lowercase_letter c \<or> digit c \<or> c = CHR ''-'' \<or> c = CHR ''/'')"

definition base_name_grammar :: "string \<Rightarrow> bool" where
  "base_name_grammar s \<longleftrightarrow> s \<noteq> [] \<and> edge_char (hd s) \<and> edge_char (last s)
     \<and> list_all spec_inner_char (butlast (tl s))"

definition name_grammar :: "string \<Rightarrow> bool" where
  "name_grammar s \<longleftrightarrow> s \<noteq> [] \<and> edge_char (hd s) \<and> edge_char (last s)
     \<and> list_all inner_char (butlast (tl s))"

section \<open>A sample project\<close>

text \<open>
  A project rooted at \<^verbatim>\<open>/repo\<close> with the usual constants, artifacts that are
  their own serialised form, and a deserialiser that rejects everything but a
  mapping. \<open>posix_relpath\<close> is \<^verbatim>\<open>os.path.relpath\<close> on a POSIX system for a
  non-empty path: both arguments are made absolute against the working
  directory and normalised, and the result climbs from \<open>start\<close> with \<^verbatim>\<open>..\<close> and
  descends to the path. \<open>sample_relpath\<close> is it with the working directory at
  the project root.
\<close>

definition abs_components :: "string \<Rightarrow> string \<Rightarrow> string list" where
  "abs_components cwd s =
     resolve_dots []
       (if s \<noteq> [] \<and> hd s = CHR ''/'' then parts (Path s) else parts (Path cwd) @ parts (Path s))"

definition posix_relpath :: "string \<Rightarrow> string \<Rightarrow> string \<Rightarrow> string" where
  "posix_relpath cwd path start =
     (let start_list = abs_components cwd start;
          path_list = abs_components cwd path;
          i = length (takeWhile (\<lambda>(a, b). a = b) (zip start_list path_list));
          rel_list = replicate (length start_list - i) ''..'' @ drop i path_list
      in if rel_list = [] then ''.'' else join_sep rel_list)"

definition sample_relpath :: "string \<Rightarrow> string \<Rightarrow> string" where
  "sample_relpath path start = posix_relpath ''/repo'' path start"

definition sample_Artifact :: "yaml \<Rightarrow> error + yaml" where
  "sample_Artifact v = (case v of Mapping m \<Rightarrow> Inr (Mapping m) | _ \<Rightarrow> Inl TypeError)"

definition sample_env :: "(yaml, yaml) env" where
  "sample_env = \<lparr>root_dir = ''/repo'', DVC_DIR = ''.dvc'', PROJECT_FILE = ''dvc.yaml'',
     relpath = sample_relpath, Artifact = sample_Artifact, to_dict = (\<lambda>a. a)\<rparr>"

definition empty_world :: world where
  "empty_world = \<lparr>is_dir = (\<lambda>p. False), files = (\<lambda>p. None), tracked = []\<rparr>"

definition model_artifact :: yaml where
  "model_artifact = Mapping [(''path'', Scalar ''model.pkl''), (''type'', Scalar ''model'')]"

definition nested_world :: world where
  "nested_world = \<lparr>is_dir = (\<lambda>p. p = Path ''sub/.dvc''), files = (\<lambda>p. None), tracked = []\<rparr>"

text \<open>
  Every path that \<^verbatim>\<open>pathlib\<close> builds has non-empty components; a record with
  an empty component stands for no path.
\<close>

definition valid_path :: "pure_path \<Rightarrow> bool" where
  "valid_path p = list_all (\<lambda>x. x \<noteq> []) (parts p)"

text \<open>
  The artifacts a manifest document declares, by name: the entries of its
  \<^verbatim>\<open>artifacts\<close> mapping, none when the document has no such mapping.
\<close>

definition artifacts_of :: "document \<Rightarrow> string \<Rightarrow> yaml option" where
  "artifacts_of doc = (case map_of doc ''artifacts'' of Some (Mapping m) \<Rightarrow> map_of m | _ \<Rightarrow> (\<lambda>n. None))"

text \<open>The document a write session on a path starts from.\<close>

definition document_at :: "world \<Rightarrow> pure_path \<Rightarrow> document" where
  "document_at w path = (case files w path of None \<Rightarrow> [] | Some d \<Rightarrow> d)"

definition retrained_artifact :: yaml where
  "retrained_artifact = Mapping [(''path'', Scalar ''model-v2.pkl''), (''type'', Scalar ''model'')]"

text \<open>
  The raw values of an index all deserialise; and the warnings a read of the
  index owes, one for each name outside the grammar, in iteration order.
\<close>

definition deserializes :: "('r, 'a) env \<Rightarrow> (string \<times> (string \<times> 'r) list) list \<Rightarrow> bool" where
  "deserializes E index =
     list_all (\<lambda>entry. list_all (\<lambda>item. \<not> isl (Artifact E (snd item))) (snd entry)) index"

definition warnings_of :: "(string \<times> (string \<times> 'r) list) list \<Rightarrow> string list" where
  "warnings_of index =
     map wrong_name_message
       (filter (\<lambda>name. \<not> name_is_compatible name) (concat (map (\<lambda>entry. map fst (snd entry)) index)))"

definition sample_index :: "(string \<times> (string \<times> yaml) list) list" where
  "sample_index =
     [(''/repo/dvc.yaml'', [(''Model_A'', model_artifact), (''m'', retrained_artifact)]),
      (''/repo/sub/dvc.yaml'', [])]"

definition broken_index :: "(string \<times> (string \<times> yaml) list) list" where
  "broken_index =
     [(''/repo/dvc.yaml'', [(''m'', model_artifact), (''n'', Scalar ''model.pkl'')])]"

text \<open>
  An index with two keys for one manifest file, and a file system seen from a
  working directory: a relative path value is resolved against that directory,
  and \<open>dirs\<close> says which absolute paths are directories.
\<close>

definition duplicate_index :: "(string \<times> (string \<times> yaml) list) list" where
  "duplicate_index =
     [(''/repo/dvc.yaml'', [(''m'', model_artifact)]),
      (''/repo/sub/../dvc.yaml'', [])]"

definition absolute_from :: "pure_path \<Rightarrow> pure_path \<Rightarrow> pure_path" where
  "absolute_from cwd p =
     (if is_absolute p then p else \<lparr>root = root cwd, parts = parts cwd @ parts p\<rparr>)"

definition world_at :: "pure_path \<Rightarrow> (pure_path \<Rightarrow> bool) \<Rightarrow> world" where
  "world_at cwd dirs =
     \<lparr>is_dir = (\<lambda>p. dirs (absolute_from cwd p)), files = (\<lambda>p. None), tracked = []\<rparr>"

definition nested_project_dirs :: "pure_path \<Rightarrow> bool" where
  "nested_project_dirs d = (d = Path ''/repo/sub/.dvc'')"

section \<open>The matcher on the name pattern\<close>

lemma range_lower: "in_item c (Range CHR ''a'' CHR ''z'') = lowercase_letter c"
proof
  assume "in_item c (Range CHR ''a'' CHR ''z'')"
  then have b: "97 \<le> (of_char c :: nat)" "(of_char c :: nat) \<le> 122" by simp_all
  define n where "n = (of_char c :: nat)"
  have c: "c = char_of n" by (simp add: n_def)
  from b have "n \<in> {97..<123::nat}" by (simp add: n_def)
  then have "n \<in> set [97..<123::nat]" by (simp only: set_upt)
  then have "char_of n \<in> char_of ` set [97..<123::nat]" by (rule imageI)
  then have "c \<in> set (map char_of [97..<123::nat])" by (simp only: c set_map)
  moreover have "map char_of [97..<123::nat] = ''abcdefghijklmnopqrstuvwxyz''" by code_simp
  ultimately show "lowercase_letter c"
    by (simp only: lowercase_letter_def)
next
  assume "lowercase_letter c"
  then show "in_item c (Range CHR ''a'' CHR ''z'')"
    by (auto simp: lowercase_letter_def)
qed

lemma range_digit: "in_item c (Range CHR ''0'' CHR ''9'') = digit c"
proof
  assume "in_item c (Range CHR ''0'' CHR ''9'')"
  then have b: "48 \<le> (of_char c :: nat)" "(of_char c :: nat) \<le> 57" by simp_all
  define n where "n = (of_char c :: nat)"
  have c: "c = char_of n" by (simp add: n_def)
  from b have "n \<in> {48..<58::nat}" by (simp add: n_def)
  then have "n \<in> set [48..<58::nat]" by (simp only: set_upt)
  then have "char_of n \<in> char_of ` set [48..<58::nat]" by (rule imageI)
  then have "c \<in> set (map char_of [48..<58::nat])" by (simp only: c set_map)
  moreover have "map char_of [48..<58::nat] = ''0123456789''" by code_simp
  ultimately show "digit c"
    by (simp only: digit_def)
next
  assume "digit c"
  then show "in_item c (Range CHR ''0'' CHR ''9'')"
    by (auto simp: digit_def)
qed



lemma class_edge:
  "in_class c [Range CHR ''a'' CHR ''z'', Range CHR ''0'' CHR ''9''] = edge_char c"
  by (simp only: in_class_def list_ex_Nil_iff list_ex_Cons_iff range_lower range_digit edge_char_def simp_thms)

lemma class_inner:
  "in_class c [Range CHR ''a'' CHR ''z'', Range CHR ''0'' CHR ''9'', Single CHR ''-'', Single CHR ''/'']
     = inner_char c"
  by (simp only: in_class_def list_ex_Nil_iff list_ex_Cons_iff range_lower range_digit inner_char_def in_item.simps(2) simp_thms)

lemma ends_Class_iff:
  "(j, r) \<in> set (ends (Class cs) (i, xs)) \<longleftrightarrow> (\<exists>x. xs = x # r \<and> in_class x cs \<and> j = Suc i)"
  by (cases xs) auto

lemma ends_Star_Class_Nil: "ends (Star (Class cs)) (i, []) = [(i, [])]"
  by simp

lemma ends_Star_Class_Cons:
  "ends (Star (Class cs)) (i, x # xs) =
     (if in_class x cs then ends (Star (Class cs)) (Suc i, xs) @ [(i, x # xs)] else [(i, x # xs)])"
  by simp

declare ends.simps(7) [simp del]

lemma ends_Star_Class_iff:
  "(j, r) \<in> set (ends (Star (Class cs)) (i, xs)) \<longleftrightarrow>
     (\<exists>ys. xs = ys @ r \<and> list_all (\<lambda>c. in_class c cs) ys \<and> j = i + length ys)"
proof (induction xs arbitrary: i)
  case Nil
  have "(j, r) \<in> set (ends (Star (Class cs)) (i, [])) \<longleftrightarrow> (j, r) = (i, [])"
    by (simp only: ends_Star_Class_Nil) simp
  also have "\<dots> \<longleftrightarrow> (\<exists>ys. [] = ys @ r \<and> list_all (\<lambda>c. in_class c cs) ys \<and> j = i + length ys)"
    by auto
  finally show ?case .
next
  case (Cons x xs)
  show ?case
  proof (cases "in_class x cs")
    case True
    have "(j, r) \<in> set (ends (Star (Class cs)) (i, x # xs)) \<longleftrightarrow>
          (j, r) \<in> set (ends (Star (Class cs)) (Suc i, xs)) \<or> (j, r) = (i, x # xs)"
      using True by (simp only: ends_Star_Class_Cons) auto
    also have "\<dots> \<longleftrightarrow> (\<exists>ys. xs = ys @ r \<and> list_all (\<lambda>c. in_class c cs) ys \<and> j = Suc i + length ys)
          \<or> (j, r) = (i, x # xs)"
      by (simp only: Cons.IH)
    also have "\<dots> \<longleftrightarrow> (\<exists>ys. x # xs = ys @ r \<and> list_all (\<lambda>c. in_class c cs) ys \<and> j = i + length ys)"
      (is "?L \<longleftrightarrow> ?R")
    proof
      assume ?L
      then show ?R
      proof
        assume "\<exists>ys. xs = ys @ r \<and> list_all (\<lambda>c. in_class c cs) ys \<and> j = Suc i + length ys"
        then obtain ys where "xs = ys @ r" "list_all (\<lambda>c. in_class c cs) ys" "j = Suc i + length ys"
          by blast
        with True have "x # xs = (x # ys) @ r \<and> list_all (\<lambda>c. in_class c cs) (x # ys)
            \<and> j = i + length (x # ys)" by simp
        then show ?R by blast
      next
        assume "(j, r) = (i, x # xs)"
        then have "x # xs = [] @ r \<and> list_all (\<lambda>c. in_class c cs) [] \<and> j = i + length ([]::string)"
          by simp
        then show ?R by blast
      qed
    next
      assume ?R
      then obtain ys where ys: "x # xs = ys @ r" "list_all (\<lambda>c. in_class c cs) ys" "j = i + length ys"
        by blast
      show ?L
      proof (cases ys)
        case Nil
        with ys show ?thesis by simp
      next
        case (Cons y zs)
        with ys have "xs = zs @ r \<and> list_all (\<lambda>c. in_class c cs) zs \<and> j = Suc i + length zs"
          by simp
        then show ?thesis by blast
      qed
    qed
    finally show ?thesis .
  next
    case False
    have "(j, r) \<in> set (ends (Star (Class cs)) (i, x # xs)) \<longleftrightarrow> (j, r) = (i, x # xs)"
      using False by (simp only: ends_Star_Class_Cons) auto
    also have "\<dots> \<longleftrightarrow> (\<exists>ys. x # xs = ys @ r \<and> list_all (\<lambda>c. in_class c cs) ys \<and> j = i + length ys)"
      (is "?L \<longleftrightarrow> ?R")
    proof
      assume ?L
      then have "x # xs = [] @ r \<and> list_all (\<lambda>c. in_class c cs) [] \<and> j = i + length ([]::string)"
        by simp
      then show ?R by blast
    next
      assume ?R
      then obtain ys where ys: "x # xs = ys @ r" "list_all (\<lambda>c. in_class c cs) ys" "j = i + length ys"
        by blast
      show ?L
      proof (cases ys)
        case Nil
        with ys show ?thesis by simp
      next
        case (Cons y zs)
        with ys False show ?thesis by simp
      qed
    qed
    finally show ?thesis .
  qed
qed


lemma ends_Cat_iff:
  "(j, r) \<in> set (ends (Cat a b) p) \<longleftrightarrow>
     (\<exists>k zs. (k, zs) \<in> set (ends a p) \<and> (j, r) \<in> set (ends b (k, zs)))"
  by auto

lemma ends_Opt_iff:
  "(j, r) \<in> set (ends (Opt a) p) \<longleftrightarrow> (j, r) \<in> set (ends a p) \<or> (j, r) = p"
  by auto


lemma ends_NAME_iff:
  "(j, r) \<in> set (ends NAME (i, xs)) \<longleftrightarrow>
     (\<exists>a. edge_char a \<and>
        (xs = a # r \<and> j = Suc i \<or>
         (\<exists>ys b. xs = a # ys @ b # r \<and> list_all inner_char ys \<and> edge_char b
            \<and> j = Suc (Suc (i + length ys)))))"
  (is "?L \<longleftrightarrow> ?R")
proof
  assume ?L
  then obtain k zs where 1: "(k, zs) \<in> set (ends (Class [Range CHR ''a'' CHR ''z'', Range CHR ''0'' CHR ''9'']) (i, xs))"
    and 2: "(j, r) \<in> set (ends (Opt (Cat (Star (Class [Range CHR ''a'' CHR ''z'', Range CHR ''0'' CHR ''9'', Single CHR ''-'', Single CHR ''/''])) (Class [Range CHR ''a'' CHR ''z'', Range CHR ''0'' CHR ''9'']))) (k, zs))"
    unfolding NAME_def ends_Cat_iff by blast
  from 1 obtain a where a: "xs = a # zs" "edge_char a" "k = Suc i"
    unfolding ends_Class_iff class_edge by blast
  from 2 have "(j, r) \<in> set (ends (Cat (Star (Class [Range CHR ''a'' CHR ''z'', Range CHR ''0'' CHR ''9'', Single CHR ''-'', Single CHR ''/''])) (Class [Range CHR ''a'' CHR ''z'', Range CHR ''0'' CHR ''9''])) (k, zs)) \<or> (j, r) = (k, zs)"
    unfolding ends_Opt_iff .
  then show ?R
  proof
    assume "(j, r) = (k, zs)"
    with a show ?R by blast
  next
    assume "(j, r) \<in> set (ends (Cat (Star (Class [Range CHR ''a'' CHR ''z'', Range CHR ''0'' CHR ''9'', Single CHR ''-'', Single CHR ''/''])) (Class [Range CHR ''a'' CHR ''z'', Range CHR ''0'' CHR ''9''])) (k, zs))"
    then obtain k' zs' where 3: "(k', zs') \<in> set (ends (Star (Class [Range CHR ''a'' CHR ''z'', Range CHR ''0'' CHR ''9'', Single CHR ''-'', Single CHR ''/''])) (k, zs))"
      and 4: "(j, r) \<in> set (ends (Class [Range CHR ''a'' CHR ''z'', Range CHR ''0'' CHR ''9'']) (k', zs'))"
      unfolding ends_Cat_iff by blast
    from 3 obtain ys where ys: "zs = ys @ zs'" "list_all inner_char ys" "k' = k + length ys"
      unfolding ends_Star_Class_iff class_inner by blast
    from 4 obtain b where b: "zs' = b # r" "edge_char b" "j = Suc k'"
      unfolding ends_Class_iff class_edge by blast
    from a ys b have "xs = a # ys @ b # r \<and> list_all inner_char ys \<and> edge_char b
        \<and> j = Suc (Suc (i + length ys))" by simp
    with a show ?R by blast
  qed
next
  assume ?R
  then obtain a where a: "edge_char a"
    and d: "xs = a # r \<and> j = Suc i \<or>
         (\<exists>ys b. xs = a # ys @ b # r \<and> list_all inner_char ys \<and> edge_char b
            \<and> j = Suc (Suc (i + length ys)))" by blast
  from d show ?L
  proof
    assume e: "xs = a # r \<and> j = Suc i"
    with a have "(j, r) \<in> set (ends (Class [Range CHR ''a'' CHR ''z'', Range CHR ''0'' CHR ''9'']) (i, xs))"
      unfolding ends_Class_iff class_edge by blast
    moreover have "(j, r) \<in> set (ends (Opt (Cat (Star (Class [Range CHR ''a'' CHR ''z'', Range CHR ''0'' CHR ''9'', Single CHR ''-'', Single CHR ''/''])) (Class [Range CHR ''a'' CHR ''z'', Range CHR ''0'' CHR ''9'']))) (j, r))"
      unfolding ends_Opt_iff by simp
    ultimately show ?L unfolding NAME_def ends_Cat_iff by blast
  next
    assume "\<exists>ys b. xs = a # ys @ b # r \<and> list_all inner_char ys \<and> edge_char b
            \<and> j = Suc (Suc (i + length ys))"
    then obtain ys b where f: "xs = a # ys @ b # r" "list_all inner_char ys" "edge_char b"
      "j = Suc (Suc (i + length ys))" by blast
    from a f have 1: "(Suc i, ys @ b # r) \<in> set (ends (Class [Range CHR ''a'' CHR ''z'', Range CHR ''0'' CHR ''9'']) (i, xs))"
      unfolding ends_Class_iff class_edge by blast
    from f have 3: "(Suc i + length ys, b # r) \<in> set (ends (Star (Class [Range CHR ''a'' CHR ''z'', Range CHR ''0'' CHR ''9'', Single CHR ''-'', Single CHR ''/''])) (Suc i, ys @ b # r))"
      unfolding ends_Star_Class_iff class_inner by blast
    from f have 4: "(j, r) \<in> set (ends (Class [Range CHR ''a'' CHR ''z'', Range CHR ''0'' CHR ''9'']) (Suc i + length ys, b # r))"
      unfolding ends_Class_iff class_edge by simp
    from 3 4 have "(j, r) \<in> set (ends (Cat (Star (Class [Range CHR ''a'' CHR ''z'', Range CHR ''0'' CHR ''9'', Single CHR ''-'', Single CHR ''/''])) (Class [Range CHR ''a'' CHR ''z'', Range CHR ''0'' CHR ''9''])) (Suc i, ys @ b # r))"
      unfolding ends_Cat_iff by blast
    then have "(j, r) \<in> set (ends (Opt (Cat (Star (Class [Range CHR ''a'' CHR ''z'', Range CHR ''0'' CHR ''9'', Single CHR ''-'', Single CHR ''/''])) (Class [Range CHR ''a'' CHR ''z'', Range CHR ''0'' CHR ''9'']))) (Suc i, ys @ b # r))"
      unfolding ends_Opt_iff by blast
    with 1 show ?L unfolding NAME_def ends_Cat_iff by blast
  qed
qed


lemma ends_Eol_iff: "ends Eol (j, r) \<noteq> [] \<longleftrightarrow> r = [] \<or> r = [line_feed]"
  by simp

lemma ends_NAME_RE_iff:
  "ends NAME_RE (i, xs) \<noteq> [] \<longleftrightarrow>
     i = 0 \<and> (\<exists>j r. (j, r) \<in> set (ends NAME (i, xs)) \<and> (r = [] \<or> r = [line_feed]))"
proof (cases "i = 0")
  case False
  then show ?thesis by (simp add: NAME_RE_def)
next
  case True
  have "ends NAME_RE (i, xs) \<noteq> [] \<longleftrightarrow> (\<exists>q \<in> set (ends NAME (i, xs)). ends Eol q \<noteq> [])"
    using True by (simp add: NAME_RE_def)
  also have "\<dots> \<longleftrightarrow> (\<exists>j r. (j, r) \<in> set (ends NAME (i, xs)) \<and> ends Eol (j, r) \<noteq> [])"
    by (simp only: Bex_def split_paired_Ex)
  also have "\<dots> \<longleftrightarrow> (\<exists>j r. (j, r) \<in> set (ends NAME (i, xs)) \<and> (r = [] \<or> r = [line_feed]))"
    by (simp only: ends_Eol_iff)
  finally show ?thesis using True by simp
qed

lemma starts_offset: "(i, r) \<in> set (starts k s) \<Longrightarrow> k \<le> i"
  by (induction k s rule: starts.induct) auto

lemma search_NAME_RE: "search NAME_RE s \<longleftrightarrow> ends NAME_RE (0, s) \<noteq> []"
proof (cases s)
  case Nil
  then show ?thesis by (simp add: search_def)
next
  case (Cons x xs)
  have "\<not> list_ex (\<lambda>p. ends NAME_RE p \<noteq> []) (starts (Suc 0) xs)"
  proof
    assume "list_ex (\<lambda>p. ends NAME_RE p \<noteq> []) (starts (Suc 0) xs)"
    then obtain i r where m: "(i, r) \<in> set (starts (Suc 0) xs)" and "ends NAME_RE (i, r) \<noteq> []"
      unfolding list_ex_iff by auto
    then have "i = 0" unfolding ends_NAME_RE_iff by blast
    with starts_offset [OF m] show False by simp
  qed
  with Cons show ?thesis by (simp add: search_def)
qed


lemma name_grammar_decomp:
  "name_grammar t \<longleftrightarrow> (\<exists>a. edge_char a \<and>
     (t = [a] \<or> (\<exists>ys b. t = a # ys @ [b] \<and> list_all inner_char ys \<and> edge_char b)))"
  (is "_ \<longleftrightarrow> ?D")
proof
  assume ?D
  then show "name_grammar t"
    unfolding name_grammar_def by auto
next
  assume g: "name_grammar t"
  show ?D
  proof (cases "tl t = []")
    case True
    with g have "t = [hd t]" unfolding name_grammar_def by (cases t) auto
    with g show ?thesis unfolding name_grammar_def by metis
  next
    case False
    with g have "t = hd t # butlast (tl t) @ [last t]"
      unfolding name_grammar_def by (cases t) auto
    with g show ?thesis unfolding name_grammar_def by metis
  qed
qed

lemma name_is_compatible_iff:
  "name_is_compatible s \<longleftrightarrow> name_grammar s \<or> (\<exists>t. s = t @ [line_feed] \<and> name_grammar t)"
  (is "?L \<longleftrightarrow> ?R")
proof
  assume ?L
  then obtain j r where m: "(j, r) \<in> set (ends NAME (0, s))" and r: "r = [] \<or> r = [line_feed]"
    unfolding name_is_compatible_def search_NAME_RE ends_NAME_RE_iff by blast
  from m obtain a where a: "edge_char a"
    and d: "s = a # r \<or> (\<exists>ys b. s = a # ys @ b # r \<and> list_all inner_char ys \<and> edge_char b)"
    unfolding ends_NAME_iff by blast
  from d have "\<exists>t. s = t @ r \<and> name_grammar t"
  proof
    assume "s = a # r"
    with a have "s = [a] @ r \<and> name_grammar [a]" unfolding name_grammar_decomp by simp
    then show ?thesis by blast
  next
    assume "\<exists>ys b. s = a # ys @ b # r \<and> list_all inner_char ys \<and> edge_char b"
    then obtain ys b where "s = a # ys @ b # r" "list_all inner_char ys" "edge_char b" by blast
    with a have "s = (a # ys @ [b]) @ r \<and> name_grammar (a # ys @ [b])"
      unfolding name_grammar_decomp by auto
    then show ?thesis by blast
  qed
  with r show ?R by auto
next
  assume ?R
  then obtain t r where t: "s = t @ r" "name_grammar t" and r: "r = [] \<or> r = [line_feed]"
    by auto
  from t(2) obtain a where a: "edge_char a"
    and d: "t = [a] \<or> (\<exists>ys b. t = a # ys @ [b] \<and> list_all inner_char ys \<and> edge_char b)"
    unfolding name_grammar_decomp by blast
  from d have "\<exists>j. (j, r) \<in> set (ends NAME (0, s))"
  proof
    assume "t = [a]"
    with t a have "(Suc 0, r) \<in> set (ends NAME (0, s))" unfolding ends_NAME_iff by auto
    then show ?thesis by blast
  next
    assume "\<exists>ys b. t = a # ys @ [b] \<and> list_all inner_char ys \<and> edge_char b"
    then obtain ys b where "t = a # ys @ [b]" "list_all inner_char ys" "edge_char b" by blast
    with t a have "(Suc (Suc (0 + length ys)), r) \<in> set (ends NAME (0, s))"
      unfolding ends_NAME_iff by auto
    then show ?thesis by blast
  qed
  with r show ?L
    unfolding name_is_compatible_def search_NAME_RE ends_NAME_RE_iff by blast
qed




lemma edge_inner: "edge_char c \<Longrightarrow> inner_char c"
  by (auto simp: edge_char_def inner_char_def)

lemma name_grammar_chars: "name_grammar t \<Longrightarrow> c \<in> set t \<Longrightarrow> inner_char c"
  unfolding name_grammar_decomp by (auto simp: list_all_iff edge_inner)

lemma not_inner_line_feed: "\<not> inner_char line_feed"
  by (simp add: inner_char_def lowercase_letter_def digit_def line_feed_def)

lemma not_edge_hyphen: "\<not> edge_char CHR ''-''"
  by (simp add: edge_char_def lowercase_letter_def digit_def)

lemma not_inner_separator: "\<not> inner_char SEPARATOR_IN_NAME"
  by (simp add: inner_char_def lowercase_letter_def digit_def SEPARATOR_IN_NAME_def)

lemma name_grammar_last: "name_grammar t \<Longrightarrow> last t \<noteq> line_feed"
proof
  assume g: "name_grammar t" and l: "last t = line_feed"
  from g have "edge_char (last t)" by (simp add: name_grammar_def)
  with l not_inner_line_feed show False by (simp add: edge_inner)
qed

lemma compatible_chars:
  assumes "name_is_compatible s" and "c \<in> set s"
  shows "inner_char c \<or> c = line_feed"
proof -
  from assms(1) have "name_grammar s \<or> (\<exists>t. s = t @ [line_feed] \<and> name_grammar t)"
    by (simp only: name_is_compatible_iff)
  then show ?thesis
  proof
    assume "name_grammar s"
    with assms(2) show ?thesis by (simp add: name_grammar_chars)
  next
    assume "\<exists>t. s = t @ [line_feed] \<and> name_grammar t"
    then obtain t where "s = t @ [line_feed]" "name_grammar t" by blast
    with assms(2) show ?thesis by (auto simp: name_grammar_chars)
  qed
qed

section \<open>The sample project, evaluated\<close>

lemma Path_sub_dvc_yaml: "Path ''sub/dvc.yaml'' = \<lparr>root = [], parts = [''sub'', ''dvc.yaml'']\<rparr>"
  by code_simp

lemma Path_dvc_dir: "Path ''.dvc'' = \<lparr>root = [], parts = [''.dvc'']\<rparr>"
  by code_simp

lemma Path_sub_dvc_dir: "Path ''sub/.dvc'' = \<lparr>root = [], parts = [''sub'', ''.dvc'']\<rparr>"
  by code_simp

lemma Path_other: "Path ''/other/dvc.yaml'' = \<lparr>root = ''/'', parts = [''other'', ''dvc.yaml'']\<rparr>"
  by code_simp

lemma Path_repo: "Path ''/repo'' = \<lparr>root = ''/'', parts = [''repo'']\<rparr>"
  by code_simp

lemma Path_repo_dvc_yaml: "Path ''/repo/dvc.yaml'' = \<lparr>root = ''/'', parts = [''repo'', ''dvc.yaml'']\<rparr>"
  by code_simp

lemma compatible_m: "name_is_compatible ''m''"
  by code_simp

lemma incompatible_Model_A: "\<not> name_is_compatible ''Model_A''"
  by code_simp

section \<open>C1: the names \<open>name_is_compatible\<close> accepts\<close>

text \<open>
  C1 as stated fails: the inner character class of \<^verbatim>\<open>NAME\<close> contains the slash,
  so \<^verbatim>\<open>a/b\<close> is compatible although it is outside the grammar the
  specification writes.
\<close>

theorem name_is_compatible_slash_counterexample:
  "name_is_compatible ''a/b'' \<and> \<not> base_name_grammar ''a/b''"
  by (simp add: name_is_compatible_iff name_grammar_def base_name_grammar_def edge_char_def
      inner_char_def spec_inner_char_def lowercase_letter_def digit_def)

text \<open>
  C1 (amended): for every string \<open>s\<close> that does not end in a line feed,
  \<open>name_is_compatible s\<close> is true if and only if \<open>s\<close> fully matches
  \<^verbatim>\<open>^[a-z0-9]([a-z0-9-/]*[a-z0-9])?$\<close>: it is non-empty, starts and ends with a
  lowercase letter or digit, and has only lowercase letters, digits, hyphens and
  slashes in between. In particular it is false for the empty string, for a
  string that starts or ends with a hyphen, and for a string with a character
  outside lowercase letters, digits, hyphen and slash (an uppercase letter, an
  underscore, the separator).
\<close>

theorem name_is_compatible_grammar:
  assumes "s = [] \<or> last s \<noteq> line_feed"
  shows "(name_is_compatible s \<longleftrightarrow> name_grammar s) \<and>
         (s = [] \<or> hd s = CHR ''-'' \<or> last s = CHR ''-'' \<or> (\<exists>c \<in> set s. \<not> inner_char c)
            \<longrightarrow> \<not> name_is_compatible s)"
proof -
  have n: "\<not> (\<exists>t. s = t @ [line_feed] \<and> name_grammar t)"
    using assms by auto
  then have iff: "name_is_compatible s \<longleftrightarrow> name_grammar s"
    by (simp only: name_is_compatible_iff simp_thms)
  have "\<not> name_grammar s"
    if "s = [] \<or> hd s = CHR ''-'' \<or> last s = CHR ''-'' \<or> (\<exists>c \<in> set s. \<not> inner_char c)"
  proof
    assume g: "name_grammar s"
    then have "s \<noteq> []" "edge_char (hd s)" "edge_char (last s)"
      by (simp_all add: name_grammar_def)
    moreover from g have "\<forall>c \<in> set s. inner_char c" by (simp add: name_grammar_chars)
    ultimately show False using that not_edge_hyphen by auto
  qed
  with iff show ?thesis by blast
qed

theorem name_is_compatible_grammar_witness:
  "(''ab-1/c'' = [] \<or> last ''ab-1/c'' \<noteq> line_feed) \<and> name_is_compatible ''ab-1/c''"
proof -
  have h: "''ab-1/c'' = [] \<or> last ''ab-1/c'' \<noteq> line_feed" by (simp add: line_feed_def)
  have "name_grammar ''ab-1/c''"
    by (simp add: name_grammar_def edge_char_def inner_char_def lowercase_letter_def digit_def)
  with name_is_compatible_grammar [OF h] h show ?thesis
    by blast
qed

section \<open>C2: names with a namespace\<close>

lemma separator_incompatible:
  assumes "SEPARATOR_IN_NAME \<in> set name"
  shows "\<not> name_is_compatible name"
proof
  assume "name_is_compatible name"
  from compatible_chars [OF this assms] not_inner_separator
  show False by (simp add: SEPARATOR_IN_NAME_def line_feed_def)
qed

text \<open>
  C2 as stated fails: \<^verbatim>\<open>models:churn\<close> has the form the full-name pattern
  describes and its base \<^verbatim>\<open>churn\<close> is compatible, but \<open>add\<close> hands the whole
  name to \<open>name_is_compatible\<close> and raises.
\<close>

theorem add_namespaced_counterexample:
  "search FULLNAME_RE ''models:churn'' \<and> name_is_compatible ''churn'' \<and>
   add sample_env ''models:churn'' model_artifact None empty_world =
     (Inl (InvalidArgumentError (wrong_name_message ''models:churn'')), empty_world)"
proof -
  have "search FULLNAME_RE ''models:churn''" by code_simp
  moreover have "name_is_compatible ''churn''" by code_simp
  moreover have "\<not> name_is_compatible ''models:churn''" by code_simp
  ultimately show ?thesis by (simp add: add_def)
qed

text \<open>
  C2 (amended): \<open>add\<close> checks the whole name, not its base portion, against the
  name grammar. Every name that contains the separator \<^verbatim>\<open>:\<close>, so every name of
  the form namespace, separator, base, makes \<open>add\<close> raise
  \<^verbatim>\<open>InvalidArgumentError\<close> with the name message, whatever the base is, and
  nothing is written or staged.
\<close>

theorem add_rejects_separator:
  assumes "SEPARATOR_IN_NAME \<in> set name"
  shows "add E name artifact dvcfile w = (Inl (InvalidArgumentError (wrong_name_message name)), w)"
  using separator_incompatible [OF assms] by (simp add: add_def)

theorem add_rejects_separator_witness:
  "SEPARATOR_IN_NAME \<in> set ''models:churn'' \<and>
   add sample_env ''models:churn'' model_artifact (Some ''dvc.yaml'') empty_world =
     (Inl (InvalidArgumentError (wrong_name_message ''models:churn'')), empty_world)"
proof -
  have h: "SEPARATOR_IN_NAME \<in> set ''models:churn''" by (simp add: SEPARATOR_IN_NAME_def)
  from h add_rejects_separator [OF h, of sample_env model_artifact "Some ''dvc.yaml''" empty_world]
  show ?thesis by (rule conjI)
qed

section \<open>The walk over the ancestors\<close>

declare walk_up.simps [simp del]

lemma valid_Path: "valid_path (Path s)"
  by (simp add: valid_path_def Path_def list_all_iff split: prod.splits)

lemma valid_parent: "valid_path p \<Longrightarrow> valid_path (path_parent p)"
  by (auto simp: valid_path_def path_parent_def list_all_iff dest: in_set_butlastD)

lemma valid_ancestors: "valid_path p \<Longrightarrow> valid_path ((path_parent ^^ k) p)"
  by (induction k) (simp_all add: valid_parent)

lemma parent_of_unnamed: "valid_path p \<Longrightarrow> path_name p = [] \<Longrightarrow> path_parent p = p"
  by (auto simp: path_name_def path_parent_def valid_path_def list_all_iff split: if_splits)

lemma ancestors_of_unnamed: "valid_path p \<Longrightarrow> path_name p = [] \<Longrightarrow> (path_parent ^^ k) p = p"
  by (induction k) (simp_all add: parent_of_unnamed)

lemma walk_up_result:
  "walk_up d w p = Inr () \<or> (\<exists>msg. walk_up d w p = Inl (InvalidArgumentError msg))"
proof (induction d w p rule: walk_up.induct)
  case (1 d w p)
  show ?case
  proof (cases "path_name p \<noteq> [] \<and> \<not> is_dir w (joinpath p d)")
    case True
    with "1.IH" show ?thesis by (subst (1 2) walk_up.simps) simp
  next
    case False
    then show ?thesis by (subst (1 2) walk_up.simps) auto
  qed
qed

lemma walk_up_ok_iff:
  "valid_path p \<Longrightarrow> walk_up d w p = Inr () \<longleftrightarrow>
     (\<forall>k. path_name ((path_parent ^^ k) p) \<noteq> [] \<longrightarrow> \<not> is_dir w (joinpath ((path_parent ^^ k) p) d))"
proof (induction d w p rule: walk_up.induct)
  case (1 d w p)
  note v = \<open>valid_path p\<close>
  show ?case
  proof (cases "path_name p = []")
    case True
    with v show ?thesis by (subst walk_up.simps) (simp add: ancestors_of_unnamed)
  next
    case named: False
    show ?thesis
    proof (cases "is_dir w (joinpath p d)")
      case True
      have "walk_up d w p \<noteq> Inr ()" using named True by (subst walk_up.simps) simp
      moreover have "path_name ((path_parent ^^ 0) p) \<noteq> [] \<and> is_dir w (joinpath ((path_parent ^^ 0) p) d)"
        using named True by simp
      ultimately show ?thesis by blast
    next
      case False
      have "walk_up d w p = walk_up d w (path_parent p)"
        using named False by (subst walk_up.simps) simp
      also have "\<dots> = Inr () \<longleftrightarrow>
          (\<forall>k. path_name ((path_parent ^^ k) (path_parent p)) \<noteq> [] \<longrightarrow>
             \<not> is_dir w (joinpath ((path_parent ^^ k) (path_parent p)) d))"
        using "1.IH" named False valid_parent [OF v] by simp
      also have "\<dots> \<longleftrightarrow>
          (\<forall>k. path_name ((path_parent ^^ Suc k) p) \<noteq> [] \<longrightarrow>
             \<not> is_dir w (joinpath ((path_parent ^^ Suc k) p) d))"
        by (simp only: funpow_Suc_right o_apply)
      also have "\<dots> \<longleftrightarrow>
          (\<forall>k. path_name ((path_parent ^^ k) p) \<noteq> [] \<longrightarrow>
             \<not> is_dir w (joinpath ((path_parent ^^ k) p) d))"
        (is "?A \<longleftrightarrow> ?B")
      proof
        assume a: ?A
        show ?B
        proof
          fix k
          show "path_name ((path_parent ^^ k) p) \<noteq> [] \<longrightarrow>
             \<not> is_dir w (joinpath ((path_parent ^^ k) p) d)"
          proof (cases k)
            case 0
            with False show ?thesis by simp
          next
            case (Suc j)
            with a show ?thesis by blast
          qed
        qed
      next
        assume ?B
        then show ?A by blast
      qed
      finally show ?thesis .
    qed
  qed
qed

lemma check_relative_ok_iff:
  assumes "valid_path p" and "\<not> is_absolute p"
  shows "check_for_nested_dvc_repo d w p = Inr () \<longleftrightarrow>
     (\<forall>k>0. path_name ((path_parent ^^ k) p) \<noteq> []
        \<longrightarrow> \<not> is_dir w (joinpath ((path_parent ^^ k) p) d))"
proof -
  have c: "check_for_nested_dvc_repo d w p = walk_up d w (path_parent p)"
    using assms by (simp add: check_for_nested_dvc_repo_def)
  have "walk_up d w (path_parent p) = Inr () \<longleftrightarrow>
      (\<forall>k. path_name ((path_parent ^^ Suc k) p) \<noteq> [] \<longrightarrow>
         \<not> is_dir w (joinpath ((path_parent ^^ Suc k) p) d))"
    by (simp only: walk_up_ok_iff [OF valid_parent [OF assms(1)]] funpow_Suc_right o_apply)
  also have "\<dots> \<longleftrightarrow> (\<forall>k>0. path_name ((path_parent ^^ k) p) \<noteq> []
             \<longrightarrow> \<not> is_dir w (joinpath ((path_parent ^^ k) p) d))"
    (is "?A \<longleftrightarrow> ?B")
  proof
    assume a: ?A
    show ?B
    proof (intro allI impI)
      fix k :: nat
      assume "0 < k" and n: "path_name ((path_parent ^^ k) p) \<noteq> []"
      then obtain j where "k = Suc j" by (cases k) auto
      with a n show "\<not> is_dir w (joinpath ((path_parent ^^ k) p) d)" by blast
    qed
  next
    assume ?B
    then show ?A by blast
  qed
  finally show ?thesis using c by simp
qed

lemma check_result:
  "check_for_nested_dvc_repo d w p = Inr () \<or>
   (\<exists>msg. check_for_nested_dvc_repo d w p = Inl (InvalidArgumentError msg))"
  using walk_up_result [of d w "path_parent p"] by (simp add: check_for_nested_dvc_repo_def)

section \<open>C9: the guard on a relative path\<close>



section \<open>Facts about paths and documents\<close>

lemma relative_to_absolute:
  assumes "is_absolute p" and "valid_path other"
  shows "relative_to p other =
     (if lexically_under p other then Inr \<lparr>root = [], parts = drop (length (parts other)) (parts p)\<rparr>
      else Inl ValueError)"
proof (cases "root other = []")
  case True
  show ?thesis
  proof (cases "parts other")
    case Nil
    with True assms show ?thesis
      by (simp add: relative_to_def abs_parts_def lexically_under_def is_absolute_def)
  next
    case (Cons x xs)
    with assms(2) have "x \<noteq> []" by (simp add: valid_path_def)
    with True Cons assms(1) show ?thesis
      by (auto simp: relative_to_def abs_parts_def lexically_under_def is_absolute_def)
  qed
next
  case False
  with assms(1) show ?thesis
    by (auto simp: relative_to_def abs_parts_def lexically_under_def is_absolute_def Let_def)
qed

lemma valid_drop: "valid_path p \<Longrightarrow> valid_path \<lparr>root = r, parts = drop n (parts p)\<rparr>"
  by (auto simp: valid_path_def list_all_iff dest: in_set_dropD)

lemma map_of_dict_set: "map_of (dict_set k v d) = (map_of d)(k \<mapsto> v)"
  by (induction d) (auto simp: fun_upd_twist)

lemma keys_dict_set_old: "k \<in> fst ` set d \<Longrightarrow> map fst (dict_set k v d) = map fst d"
  by (induction d) force+

lemma keys_dict_set_new: "k \<notin> fst ` set d \<Longrightarrow> map fst (dict_set k v d) = map fst d @ [k]"
  by (induction d) auto

lemma walk_up_is_dir: "is_dir w' = is_dir w \<Longrightarrow> walk_up d w' p = walk_up d w p"
proof (induction d w p rule: walk_up.induct)
  case (1 d w p)
  show ?case
  proof (cases "path_name p \<noteq> [] \<and> \<not> is_dir w (joinpath p d)")
    case True
    with 1 show ?thesis by (subst (1 2) walk_up.simps) simp
  next
    case False
    with 1(2) show ?thesis by (subst (1 2) walk_up.simps) auto
  qed
qed

lemma check_is_dir:
  "is_dir w' = is_dir w \<Longrightarrow> check_for_nested_dvc_repo d w' p = check_for_nested_dvc_repo d w p"
  using walk_up_is_dir [of w' w d "path_parent p"] by (simp add: check_for_nested_dvc_repo_def)


lemma relative_to_relative:
  assumes "valid_path p" and "valid_path other" and "is_absolute p"
    and "relative_to p other = Inr rel"
  shows "valid_path rel \<and> \<not> is_absolute rel"
proof -
  from assms(4) relative_to_absolute [OF assms(3) assms(2)]
  have "rel = \<lparr>root = [], parts = drop (length (parts other)) (parts p)\<rparr>"
    by (simp split: if_splits)
  with valid_drop [OF assms(1)] show ?thesis by (simp add: is_absolute_def)
qed

lemma nested_check_raises:
  assumes "valid_path rel" and "\<not> is_absolute rel" and "0 < k"
    and "path_name ((path_parent ^^ k) rel) \<noteq> []"
    and "is_dir w (joinpath ((path_parent ^^ k) rel) d)"
  shows "\<exists>msg. check_for_nested_dvc_repo d w rel = Inl (InvalidArgumentError msg)"
proof -
  from assms(3-5) check_relative_ok_iff [OF assms(1,2), of d w]
  have "check_for_nested_dvc_repo d w rel \<noteq> Inr ()" by blast
  with check_result [of d w rel] show ?thesis by blast
qed

section \<open>The steps of \<open>add\<close>\<close>

lemma add_unfold:
  "add E name a dvcfile w =
    (let p = Path (py_or dvcfile (PROJECT_FILE E)) in
     if \<not> name_is_compatible name then (Inl (InvalidArgumentError (wrong_name_message name)), w)
     else case (if is_absolute p then relative_to p (Path (root_dir E)) else Inr p) of
         Inl e \<Rightarrow> (Inl e, w)
       | Inr rel \<Rightarrow>
          (case check_for_nested_dvc_repo (DVC_DIR E) w rel of
             Inl e \<Rightarrow> (Inl e, w)
           | Inr u \<Rightarrow>
              (case add_body name (to_dict E a) (document_at w p) of
                 Inl e \<Rightarrow> (Inl e, w)
               | Inr (doc', m') \<Rightarrow>
                   (Inr (map_of m' name),
                    w\<lparr>files := (files w)(p \<mapsto> doc'), tracked := tracked w @ [dvcfile]\<rparr>))))"
  by (simp add: add_def modify_yaml_def track_file_def document_at_def Let_def
      split: sum.splits prod.splits)

lemma add_body_cases:
  "add_body name v data = Inl AttributeError \<or>
   (\<exists>doc' m. add_body name v data = Inr (doc', dict_set name v m)
      \<and> map_of doc' = (map_of data)(''artifacts'' \<mapsto> Mapping (dict_set name v m))
      \<and> map_of m = artifacts_of data)"
proof (cases "map_of data ''artifacts''")
  case None
  then have "add_body name v data =
      Inr (dict_set ''artifacts'' (Mapping (dict_set name v [])) (data @ [(''artifacts'', Mapping [])]),
           dict_set name v [])"
    by (simp add: add_body_def setdefault_def Let_def)
  moreover have "map_of (dict_set ''artifacts'' (Mapping (dict_set name v [])) (data @ [(''artifacts'', Mapping [])]))
      = (map_of data)(''artifacts'' \<mapsto> Mapping (dict_set name v []))"
    using None by (simp only: map_of_dict_set) (auto simp: map_add_def fun_eq_iff split: option.splits)
  moreover have "map_of [] = artifacts_of data"
    using None by (simp add: artifacts_of_def)
  ultimately show ?thesis by blast
next
  case (Some y)
  show ?thesis
  proof (cases y)
    case (Mapping m)
    with Some have "add_body name v data =
        Inr (dict_set ''artifacts'' (Mapping (dict_set name v m)) data, dict_set name v m)"
      by (simp add: add_body_def setdefault_def Let_def)
    moreover have "map_of (dict_set ''artifacts'' (Mapping (dict_set name v m)) data)
        = (map_of data)(''artifacts'' \<mapsto> Mapping (dict_set name v m))"
      by (simp only: map_of_dict_set)
    moreover have "map_of m = artifacts_of data"
      using Some Mapping by (simp add: artifacts_of_def)
    ultimately show ?thesis by blast
  next
    case (Scalar s)
    with Some show ?thesis by (simp add: add_body_def setdefault_def Let_def)
  next
    case (Sequence s)
    with Some show ?thesis by (simp add: add_body_def setdefault_def Let_def)
  qed
qed

lemma artifacts_of_written:
  assumes "map_of doc' = (map_of data)(''artifacts'' \<mapsto> Mapping (dict_set name v m))"
    and "map_of m = artifacts_of data"
  shows "artifacts_of doc' = (artifacts_of data)(name \<mapsto> v)"
  using assms by (simp add: artifacts_of_def [of doc'] map_of_dict_set)

lemma add_after_checks:
  assumes "name_is_compatible name"
    and "p = Path (py_or dvcfile (PROJECT_FILE E))"
    and "(if is_absolute p then relative_to p (Path (root_dir E)) else Inr p) = Inr rel"
    and "check_for_nested_dvc_repo (DVC_DIR E) w rel = Inr ()"
  shows "add E name a dvcfile w =
     (case add_body name (to_dict E a) (document_at w p) of
        Inl e \<Rightarrow> (Inl e, w)
      | Inr (doc', m') \<Rightarrow>
          (Inr (map_of m' name),
           w\<lparr>files := (files w)(p \<mapsto> doc'), tracked := tracked w @ [dvcfile]\<rparr>))"
  using assms(1,3,4) by (simp add: add_unfold Let_def assms(2) [symmetric])

lemma add_success:
  assumes "add E name a dvcfile w = (Inr r, w')"
    and "p = Path (py_or dvcfile (PROJECT_FILE E))"
  shows "name_is_compatible name \<and>
     (\<exists>rel. (if is_absolute p then relative_to p (Path (root_dir E)) else Inr p) = Inr rel
        \<and> check_for_nested_dvc_repo (DVC_DIR E) w rel = Inr ()) \<and>
     (\<exists>doc' m'. add_body name (to_dict E a) (document_at w p) = Inr (doc', m')
        \<and> r = map_of m' name
        \<and> w' = w\<lparr>files := (files w)(p \<mapsto> doc'), tracked := tracked w @ [dvcfile]\<rparr>)"
  using assms(1)
  by (auto simp: add_unfold Let_def assms(2) [symmetric] split: if_splits sum.splits prod.splits)

lemma add_body_mapping:
  assumes "map_of data ''artifacts'' = Some (Mapping m)"
  shows "add_body name v data =
     Inr (dict_set ''artifacts'' (Mapping (dict_set name v m)) data, dict_set name v m)"
  using assms by (simp add: add_body_def setdefault_def Let_def)

lemma add_written:
  assumes "name_is_compatible name"
    and "p = Path (py_or dvcfile (PROJECT_FILE E))"
    and "(if is_absolute p then relative_to p (Path (root_dir E)) else Inr p) = Inr rel"
    and "check_for_nested_dvc_repo (DVC_DIR E) w rel = Inr ()"
  shows "add E name a dvcfile w = (Inl AttributeError, w) \<or>
     (\<exists>doc'. add E name a dvcfile w =
         (Inr (Some (to_dict E a)),
          w\<lparr>files := (files w)(p \<mapsto> doc'), tracked := tracked w @ [dvcfile]\<rparr>)
       \<and> artifacts_of doc' = (artifacts_of (document_at w p))(name \<mapsto> to_dict E a)
       \<and> (\<forall>k. k \<noteq> ''artifacts'' \<longrightarrow> map_of doc' k = map_of (document_at w p) k))"
proof -
  note a = add_after_checks [OF assms, of a]
  from add_body_cases [of name "to_dict E a" "document_at w p"]
  show ?thesis
  proof
    assume "add_body name (to_dict E a) (document_at w p) = Inl AttributeError"
    with a show ?thesis by simp
  next
    assume "\<exists>doc' m. add_body name (to_dict E a) (document_at w p) = Inr (doc', dict_set name (to_dict E a) m)
      \<and> map_of doc' = (map_of (document_at w p))(''artifacts'' \<mapsto> Mapping (dict_set name (to_dict E a) m))
      \<and> map_of m = artifacts_of (document_at w p)"
    then obtain doc' m where b: "add_body name (to_dict E a) (document_at w p) = Inr (doc', dict_set name (to_dict E a) m)"
      and d: "map_of doc' = (map_of (document_at w p))(''artifacts'' \<mapsto> Mapping (dict_set name (to_dict E a) m))"
      and m: "map_of m = artifacts_of (document_at w p)"
      by blast
    from a b have "add E name a dvcfile w =
         (Inr (Some (to_dict E a)),
          w\<lparr>files := (files w)(p \<mapsto> doc'), tracked := tracked w @ [dvcfile]\<rparr>)"
      by (simp add: map_of_dict_set)
    moreover note artifacts_of_written [OF d m]
    moreover from d have "\<forall>k. k \<noteq> ''artifacts'' \<longrightarrow> map_of doc' k = map_of (document_at w p) k"
      by simp
    ultimately show ?thesis by blast
  qed
qed

lemma add_tracks_argument:
  assumes "add E name a dvcfile w = (Inr r, w')"
  shows "tracked w' = tracked w @ [dvcfile]"
  using add_success [OF assms refl] by auto

section \<open>C10: an absolute manifest path outside the project root\<close>

lemma Path_dotdot:
  "Path ''/repo/../other/dvc.yaml'' = \<lparr>root = ''/'', parts = [''repo'', ''..'', ''other'', ''dvc.yaml'']\<rparr>"
  by code_simp

text \<open>
  C10 as stated fails: \<^verbatim>\<open>/repo/../other/dvc.yaml\<close> leads outside \<^verbatim>\<open>/repo\<close>, but
  \<^verbatim>\<open>relative_to\<close> compares the components as written and finds the root
  directory first among them, so no \<^verbatim>\<open>ValueError\<close> is raised and \<open>add\<close> writes
  the manifest outside the project.
\<close>

theorem add_dotdot_counterexample:
  "is_absolute (Path ''/repo/../other/dvc.yaml'') \<and>
   \<not> located_under (Path ''/repo/../other/dvc.yaml'') (Path ''/repo'') \<and>
   name_is_compatible ''m'' \<and>
   fst (add sample_env ''m'' model_artifact (Some ''/repo/../other/dvc.yaml'') empty_world)
     = Inr (Some model_artifact) \<and>
   files (snd (add sample_env ''m'' model_artifact (Some ''/repo/../other/dvc.yaml'') empty_world))
     (Path ''/repo/../other/dvc.yaml'') = Some [(''artifacts'', Mapping [(''m'', model_artifact)])]"
proof -
  have 1: "is_absolute (Path ''/repo/../other/dvc.yaml'')" by code_simp
  have 2: "\<not> located_under (Path ''/repo/../other/dvc.yaml'') (Path ''/repo'')" by code_simp
  have 3: "fst (add sample_env ''m'' model_artifact (Some ''/repo/../other/dvc.yaml'') empty_world)
     = Inr (Some model_artifact)" by code_simp
  have 4: "files (snd (add sample_env ''m'' model_artifact (Some ''/repo/../other/dvc.yaml'') empty_world))
     (Path ''/repo/../other/dvc.yaml'') = Some [(''artifacts'', Mapping [(''m'', model_artifact)])]"
    by code_simp
  from 1 2 compatible_m 3 4 show ?thesis by (intro conjI)
qed

text \<open>
  C10 (amended): for every absolute manifest path and compatible name, \<open>add\<close>
  raises \<^verbatim>\<open>ValueError\<close> if and only if the project root is not a leading part of
  the path as written (same root, the root directory's components first, \<^verbatim>\<open>..\<close>
  not resolved). The error is the one of \<^verbatim>\<open>relative_to\<close>, not
  \<^verbatim>\<open>InvalidArgumentError\<close>, it reaches the caller as it is, and nothing is
  written or staged.
\<close>

theorem add_raises_value_error_iff:
  assumes "name_is_compatible name"
    and "is_absolute (Path (py_or dvcfile (PROJECT_FILE E)))"
  shows "(fst (add E name artifact dvcfile w) = Inl ValueError \<longleftrightarrow>
            \<not> lexically_under (Path (py_or dvcfile (PROJECT_FILE E))) (Path (root_dir E))) \<and>
         (\<not> lexically_under (Path (py_or dvcfile (PROJECT_FILE E))) (Path (root_dir E)) \<longrightarrow>
            add E name artifact dvcfile w = (Inl ValueError, w))"
proof (cases "lexically_under (Path (py_or dvcfile (PROJECT_FILE E))) (Path (root_dir E))")
  case False
  with relative_to_absolute [OF assms(2) valid_Path, of "root_dir E"]
  have "relative_to (Path (py_or dvcfile (PROJECT_FILE E))) (Path (root_dir E)) = Inl ValueError"
    by simp
  with assms have "add E name artifact dvcfile w = (Inl ValueError, w)"
    by (simp add: add_unfold Let_def)
  with False show ?thesis by simp
next
  case True
  let ?p = "Path (py_or dvcfile (PROJECT_FILE E))"
  let ?rel = "\<lparr>root = [], parts = drop (length (parts (Path (root_dir E)))) (parts ?p)\<rparr>"
  from True relative_to_absolute [OF assms(2) valid_Path, of "root_dir E"] assms(2)
  have res: "(if is_absolute ?p then relative_to ?p (Path (root_dir E)) else Inr ?p) = Inr ?rel"
    by simp
  have "fst (add E name artifact dvcfile w) \<noteq> Inl ValueError"
  proof (cases "check_for_nested_dvc_repo (DVC_DIR E) w ?rel = Inr ()")
    case True
    from add_written [OF assms(1) refl res True, of artifact] show ?thesis by auto
  next
    case False
    with check_result [of "DVC_DIR E" w ?rel]
    obtain msg where "check_for_nested_dvc_repo (DVC_DIR E) w ?rel = Inl (InvalidArgumentError msg)"
      by blast
    with assms(1) res show ?thesis by (simp add: add_unfold Let_def)
  qed
  with True show ?thesis by simp
qed

theorem add_raises_value_error_iff_witness:
  "name_is_compatible ''m'' \<and> is_absolute (Path ''/other/dvc.yaml'') \<and>
   \<not> lexically_under (Path ''/other/dvc.yaml'') (Path ''/repo'') \<and>
   add sample_env ''m'' model_artifact (Some ''/other/dvc.yaml'') empty_world
     = (Inl ValueError, empty_world) \<and>
   is_absolute (Path ''/repo/dvc.yaml'') \<and>
   fst (add sample_env ''m'' model_artifact (Some ''/repo/dvc.yaml'') empty_world) \<noteq> Inl ValueError"
proof -
  have a: "is_absolute (Path (py_or (Some ''/other/dvc.yaml'') (PROJECT_FILE sample_env)))"
    by (simp add: py_or_def Path_other is_absolute_def)
  have b: "\<not> lexically_under (Path (py_or (Some ''/other/dvc.yaml'') (PROJECT_FILE sample_env)))
      (Path (root_dir sample_env))"
    by (simp add: py_or_def sample_env_def Path_other Path_repo lexically_under_def)
  from a have a': "is_absolute (Path ''/other/dvc.yaml'')" by (simp add: py_or_def)
  from b have b': "\<not> lexically_under (Path ''/other/dvc.yaml'') (Path ''/repo'')"
    by (simp add: py_or_def sample_env_def)
  from add_raises_value_error_iff [OF compatible_m a, of model_artifact empty_world] b
  have c: "add sample_env ''m'' model_artifact (Some ''/other/dvc.yaml'') empty_world
     = (Inl ValueError, empty_world)" by blast
  have d: "is_absolute (Path (py_or (Some ''/repo/dvc.yaml'') (PROJECT_FILE sample_env)))"
    by (simp add: py_or_def Path_repo_dvc_yaml is_absolute_def)
  have e: "lexically_under (Path (py_or (Some ''/repo/dvc.yaml'') (PROJECT_FILE sample_env)))
      (Path (root_dir sample_env))"
    by (simp add: py_or_def sample_env_def Path_repo_dvc_yaml Path_repo lexically_under_def)
  from d have d': "is_absolute (Path ''/repo/dvc.yaml'')" by (simp add: py_or_def)
  from add_raises_value_error_iff [OF compatible_m d, of model_artifact empty_world] e
  have f: "fst (add sample_env ''m'' model_artifact (Some ''/repo/dvc.yaml'') empty_world) \<noteq> Inl ValueError"
    by blast
  from compatible_m a' b' c d' f show ?thesis by (intro conjI)
qed

section \<open>The guard inside \<open>add\<close>\<close>

text \<open>
  When the manifest path, taken relative to the project root, has an ancestor
  directory (its parent, or a directory further up) such that the relative path
  of the project-control subdirectory in it is a directory, \<open>add\<close> raises
  \<^verbatim>\<open>InvalidArgumentError\<close> and returns the world as it was: no write session is
  opened and the manifest is unchanged.
\<close>

lemma add_nested_repo:
  assumes "p = Path (py_or dvcfile (PROJECT_FILE E))"
    and "\<not> is_absolute p \<and> rel = p \<or> is_absolute p \<and> relative_to p (Path (root_dir E)) = Inr rel"
    and "0 < k"
    and "path_name ((path_parent ^^ k) rel) \<noteq> []"
    and "is_dir w (joinpath ((path_parent ^^ k) rel) (DVC_DIR E))"
  shows "\<exists>msg. add E name artifact dvcfile w = (Inl (InvalidArgumentError msg), w)"
proof (cases "name_is_compatible name")
  case False
  then show ?thesis by (simp add: add_unfold)
next
  case True
  have vp: "valid_path p" unfolding assms(1) by (rule valid_Path)
  from assms(2) have r: "valid_path rel \<and> \<not> is_absolute rel"
  proof
    assume "\<not> is_absolute p \<and> rel = p"
    with vp show ?thesis by simp
  next
    assume "is_absolute p \<and> relative_to p (Path (root_dir E)) = Inr rel"
    with relative_to_relative [OF vp valid_Path, of "root_dir E" rel] show ?thesis by simp
  qed
  with nested_check_raises [OF _ _ assms(3-5)]
  obtain msg where m: "check_for_nested_dvc_repo (DVC_DIR E) w rel = Inl (InvalidArgumentError msg)"
    by blast
  from assms(2) have "(if is_absolute p then relative_to p (Path (root_dir E)) else Inr p) = Inr rel"
    by auto
  with True m have "add E name artifact dvcfile w = (Inl (InvalidArgumentError msg), w)"
    by (simp add: add_unfold Let_def assms(1) [symmetric])
  then show ?thesis by blast
qed


lemma add_nested_repo_example:
  "\<not> is_absolute (Path ''sub/dvc.yaml'') \<and>
   path_name ((path_parent ^^ Suc 0) (Path ''sub/dvc.yaml'')) \<noteq> [] \<and>
   is_dir nested_world (joinpath ((path_parent ^^ Suc 0) (Path ''sub/dvc.yaml'')) ''.dvc'') \<and>
   (\<exists>msg. add sample_env ''m'' model_artifact (Some ''sub/dvc.yaml'') nested_world
      = (Inl (InvalidArgumentError msg), nested_world))"
proof -
  let ?p = "Path ''sub/dvc.yaml''"
  have p: "?p = Path (py_or (Some ''sub/dvc.yaml'') (PROJECT_FILE sample_env))"
    by (simp add: py_or_def)
  have r: "\<not> is_absolute ?p" by (simp add: Path_sub_dvc_yaml is_absolute_def)
  then have r': "\<not> is_absolute ?p \<and> ?p = ?p \<or>
      is_absolute ?p \<and> relative_to ?p (Path (root_dir sample_env)) = Inr ?p"
    by simp
  have e: "(path_parent ^^ Suc 0) ?p = \<lparr>root = [], parts = [''sub'']\<rparr>"
    by (simp add: Path_sub_dvc_yaml path_parent_def)
  have j: "joinpath \<lparr>root = [], parts = [''sub'']\<rparr> ''.dvc'' = Path ''sub/.dvc''"
    by (simp add: joinpath_def Path_dvc_dir Path_sub_dvc_dir)
  have n: "path_name ((path_parent ^^ Suc 0) ?p) \<noteq> []"
    unfolding e by (simp add: path_name_def)
  have d: "is_dir nested_world (joinpath ((path_parent ^^ Suc 0) ?p) ''.dvc'')"
    unfolding e j by (simp add: nested_world_def)
  from d have d': "is_dir nested_world (joinpath ((path_parent ^^ Suc 0) ?p) (DVC_DIR sample_env))"
    by (simp add: sample_env_def)
  have k: "0 < Suc 0" by simp
  from r n d add_nested_repo [OF p r' k n d', of "''m''" model_artifact]
  show ?thesis by (intro conjI)
qed

lemma parts_parent: "parts (path_parent q) = butlast (parts q) \<and> root (path_parent q) = root q"
  by (simp add: path_parent_def)

lemma parts_ancestor:
  "parts ((path_parent ^^ k) q) = take (length (parts q) - k) (parts q)
     \<and> root ((path_parent ^^ k) q) = root q"
proof (induction k)
  case 0
  then show ?case by simp
next
  case (Suc k)
  have "butlast (take (length (parts q) - k) (parts q)) = take (length (parts q) - Suc k) (parts q)"
    by (simp add: butlast_take)
  with Suc show ?case by (simp add: parts_parent)
qed

text \<open>
  With the working directory at the project root the guard looks where the
  manifest is: for a relative manifest path, and for an absolute one that has
  the root as a leading part, a project-control subdirectory in any directory
  between the root and the manifest makes \<open>add\<close> raise.
\<close>

lemma add_nested_repo_at_root:
  assumes p: "p = Path (py_or dvcfile (PROJECT_FILE E))"
    and R: "R = Path (root_dir E)"
    and cwd: "is_dir w = (\<lambda>q. dirs (absolute_from R q))"
    and d: "\<not> is_absolute (Path (DVC_DIR E))"
    and under: "\<not> is_absolute p \<or> lexically_under p R"
    and M: "M = absolute_from R p"
    and k: "0 < k"
    and below: "length (parts R) < length (parts ((path_parent ^^ k) M))"
    and nested: "dirs (joinpath ((path_parent ^^ k) M) (DVC_DIR E))"
  shows "\<exists>msg. add E name artifact dvcfile w = (Inl (InvalidArgumentError msg), w)"
proof -
  have vp: "valid_path p" unfolding p by (rule valid_Path)
  define rel where "rel = (if is_absolute p
      then \<lparr>root = [], parts = drop (length (parts R)) (parts p)\<rparr> else p)"
  have res: "\<not> is_absolute p \<and> rel = p \<or>
      is_absolute p \<and> relative_to p (Path (root_dir E)) = Inr rel"
  proof (cases "is_absolute p")
    case True
    with under have "lexically_under p R" by simp
    with relative_to_absolute [OF True valid_Path, of "root_dir E"] True
    show ?thesis by (simp add: rel_def R)
  next
    case False
    then show ?thesis by (simp add: rel_def)
  qed
  have shape: "root M = root R \<and> parts M = parts R @ parts rel \<and> root rel = []"
  proof (cases "is_absolute p")
    case True
    with under have u: "lexically_under p R" by simp
    then have "parts p = parts R @ drop (length (parts R)) (parts p)"
      by (metis append_take_drop_id lexically_under_def)
    with True u show ?thesis by (simp add: M absolute_from_def rel_def lexically_under_def)
  next
    case False
    then show ?thesis by (simp add: M absolute_from_def rel_def is_absolute_def)
  qed
  have vr: "valid_path rel"
  proof (cases "is_absolute p")
    case True
    with valid_drop [OF vp] show ?thesis by (simp add: rel_def)
  next
    case False
    with vp show ?thesis by (simp add: rel_def)
  qed
  let ?a = "(path_parent ^^ k) rel"
  let ?A = "(path_parent ^^ k) M"
  from below shape have long: "k < length (parts rel)"
    by (simp add: parts_ancestor)
  have pa: "parts ?a = take (length (parts rel) - k) (parts rel)" "root ?a = []"
    using shape by (simp_all add: parts_ancestor)
  have pA: "parts ?A = parts R @ parts ?a" "root ?A = root R"
    using shape long by (simp_all add: parts_ancestor)
  from long have "parts rel \<noteq> []" by auto
  with long pa have "parts ?a \<noteq> []" by simp
  moreover from valid_ancestors [OF vr, of k] have "valid_path ?a" .
  ultimately have named: "path_name ?a \<noteq> []"
    by (auto simp: path_name_def valid_path_def list_all_iff)
  have "absolute_from R (joinpath ?a (DVC_DIR E)) = joinpath ?A (DVC_DIR E)"
    using d pa pA by (simp add: absolute_from_def joinpath_def is_absolute_def Let_def)
  with nested cwd have "is_dir w (joinpath ?a (DVC_DIR E))" by simp
  from add_nested_repo [OF p res k named this] show ?thesis .
qed


lemma add_nested_absolute_manifest_at_root:
  "fst (add sample_env ''m'' model_artifact (Some ''/repo/sub/dvc.yaml'')
          (world_at (Path ''/repo'') nested_project_dirs))
     = Inl (InvalidArgumentError ''Nested DVC repos like sub are not supported.'')"
  by code_simp

section \<open>C4: a manifest inside a nested project\<close>

text \<open>
  C4 at an absolute manifest path, seen from another working directory. The
  project is rooted at \<^verbatim>\<open>/repo\<close>, the directory \<^verbatim>\<open>/repo/sub\<close> holds a
  project-control subdirectory, and the process works in \<^verbatim>\<open>/tmp\<close>. The manifest
  \<^verbatim>\<open>/repo/sub/dvc.yaml\<close> has \<^verbatim>\<open>/repo/sub\<close> as its parent, below the root, yet
  \<open>add\<close> tests the relative path \<^verbatim>\<open>sub/.dvc\<close>, which is resolved against the
  working directory, finds no directory there, and writes the manifest.
\<close>

theorem add_nested_absolute_manifest_written:
  "lexically_under (Path ''/repo/sub/dvc.yaml'') (Path ''/repo'') \<and>
   path_parent (Path ''/repo/sub/dvc.yaml'') = Path ''/repo/sub'' \<and>
   is_dir (world_at (Path ''/tmp'') nested_project_dirs) (joinpath (Path ''/repo/sub'') ''.dvc'') \<and>
   fst (add sample_env ''m'' model_artifact (Some ''/repo/sub/dvc.yaml'')
          (world_at (Path ''/tmp'') nested_project_dirs)) = Inr (Some model_artifact) \<and>
   files (snd (add sample_env ''m'' model_artifact (Some ''/repo/sub/dvc.yaml'')
          (world_at (Path ''/tmp'') nested_project_dirs))) (Path ''/repo/sub/dvc.yaml'')
     = Some [(''artifacts'', Mapping [(''m'', model_artifact)])]"
proof -
  have 1: "lexically_under (Path ''/repo/sub/dvc.yaml'') (Path ''/repo'')" by code_simp
  have 2: "path_parent (Path ''/repo/sub/dvc.yaml'') = Path ''/repo/sub''" by code_simp
  have 3: "is_dir (world_at (Path ''/tmp'') nested_project_dirs) (joinpath (Path ''/repo/sub'') ''.dvc'')"
    by code_simp
  have 4: "fst (add sample_env ''m'' model_artifact (Some ''/repo/sub/dvc.yaml'')
          (world_at (Path ''/tmp'') nested_project_dirs)) = Inr (Some model_artifact)"
    by code_simp
  have 5: "files (snd (add sample_env ''m'' model_artifact (Some ''/repo/sub/dvc.yaml'')
          (world_at (Path ''/tmp'') nested_project_dirs))) (Path ''/repo/sub/dvc.yaml'')
     = Some [(''artifacts'', Mapping [(''m'', model_artifact)])]"
    by code_simp
  from 1 2 3 4 5 show ?thesis by (intro conjI)
qed

section \<open>C3: an absolute manifest path\<close>






section \<open>C8: what is handed to \<open>track_file\<close>\<close>

text \<open>
  C8 at the default manifest: with the manifest path omitted, \<open>add\<close> succeeds
  and writes \<^verbatim>\<open>dvc.yaml\<close>, and the one call to \<^verbatim>\<open>track_file\<close> carries \<^verbatim>\<open>None\<close>, the
  argument as the caller left it, not the file that was written.
\<close>

theorem add_default_manifest_tracks_none:
  "fst (add sample_env ''m'' model_artifact None empty_world) = Inr (Some model_artifact) \<and>
   files (snd (add sample_env ''m'' model_artifact None empty_world)) (Path ''dvc.yaml'')
     = Some [(''artifacts'', Mapping [(''m'', model_artifact)])] \<and>
   tracked (snd (add sample_env ''m'' model_artifact None empty_world)) = [None]"
proof -
  have 1: "fst (add sample_env ''m'' model_artifact None empty_world) = Inr (Some model_artifact)"
    by code_simp
  have 2: "files (snd (add sample_env ''m'' model_artifact None empty_world)) (Path ''dvc.yaml'')
     = Some [(''artifacts'', Mapping [(''m'', model_artifact)])]"
    by code_simp
  have 3: "tracked (snd (add sample_env ''m'' model_artifact None empty_world)) = [None]"
    by code_simp
  from 1 2 3 show ?thesis by (intro conjI)
qed

section \<open>C7: adding twice under one name\<close>

text \<open>
  C7: after a successful \<open>add\<close> of a name, a second \<open>add\<close> of the same name to
  the same manifest with another payload succeeds as well, and the manifest's
  artifacts mapping then holds the second payload under that name. Each of the
  two calls leaves every other artifact entry, every other top-level key of the
  document and every other file as it was.
\<close>

theorem add_twice_upsert:
  assumes "add E name a1 dvcfile w = (Inr r1, w1)"
    and "p = Path (py_or dvcfile (PROJECT_FILE E))"
  shows "\<exists>r2 w2 doc1 doc2.
      add E name a2 dvcfile w1 = (Inr r2, w2) \<and>
      files w1 p = Some doc1 \<and> files w2 p = Some doc2 \<and>
      artifacts_of doc1 name = Some (to_dict E a1) \<and>
      artifacts_of doc2 name = Some (to_dict E a2) \<and>
      (\<forall>n. n \<noteq> name \<longrightarrow> artifacts_of doc1 n = artifacts_of (document_at w p) n
          \<and> artifacts_of doc2 n = artifacts_of doc1 n) \<and>
      (\<forall>k. k \<noteq> ''artifacts'' \<longrightarrow> map_of doc1 k = map_of (document_at w p) k
          \<and> map_of doc2 k = map_of doc1 k) \<and>
      (\<forall>q. q \<noteq> p \<longrightarrow> files w1 q = files w q \<and> files w2 q = files w1 q)"
proof -
  from add_success [OF assms]
  obtain rel where c: "name_is_compatible name"
    and res: "(if is_absolute p then relative_to p (Path (root_dir E)) else Inr p) = Inr rel"
    and chk: "check_for_nested_dvc_repo (DVC_DIR E) w rel = Inr ()"
    by blast
  from add_written [OF c assms(2) res chk, of a1] assms(1)
  obtain doc1 where w1: "w1 = w\<lparr>files := (files w)(p \<mapsto> doc1), tracked := tracked w @ [dvcfile]\<rparr>"
    and a1: "artifacts_of doc1 = (artifacts_of (document_at w p))(name \<mapsto> to_dict E a1)"
    and k1: "\<forall>k. k \<noteq> ''artifacts'' \<longrightarrow> map_of doc1 k = map_of (document_at w p) k"
    by auto
  have d1: "document_at w1 p = doc1" by (simp add: w1 document_at_def)
  have "is_dir w1 = is_dir w" by (simp add: w1)
  from check_is_dir [OF this, of "DVC_DIR E" rel] chk
  have chk1: "check_for_nested_dvc_repo (DVC_DIR E) w1 rel = Inr ()"
    by simp
  have "map_of doc1 ''artifacts'' \<noteq> None \<and> (\<exists>m. map_of doc1 ''artifacts'' = Some (Mapping m))"
  proof -
    from a1 have "artifacts_of doc1 name = Some (to_dict E a1)" by simp
    then show ?thesis
      by (auto simp: artifacts_of_def split: option.splits yaml.splits)
  qed
  then obtain m where m: "map_of doc1 ''artifacts'' = Some (Mapping m)" by blast
  from add_after_checks [OF c assms(2) res chk1, of a2] add_body_mapping [OF m, of name "to_dict E a2"]
  have second: "add E name a2 dvcfile w1 =
      (Inr (Some (to_dict E a2)),
       w1\<lparr>files := (files w1)(p \<mapsto> dict_set ''artifacts'' (Mapping (dict_set name (to_dict E a2) m)) doc1),
          tracked := tracked w1 @ [dvcfile]\<rparr>)"
    by (simp add: d1 map_of_dict_set)
  define doc2 where "doc2 = dict_set ''artifacts'' (Mapping (dict_set name (to_dict E a2) m)) doc1"
  define w2 where "w2 = w1\<lparr>files := (files w1)(p \<mapsto> doc2), tracked := tracked w1 @ [dvcfile]\<rparr>"
  have md2: "map_of doc2 = (map_of doc1)(''artifacts'' \<mapsto> Mapping (dict_set name (to_dict E a2) m))"
    by (simp add: doc2_def map_of_dict_set)
  have mm: "map_of m = artifacts_of doc1" using m by (simp add: artifacts_of_def)
  note a2 = artifacts_of_written [OF md2 mm]
  have "add E name a2 dvcfile w1 = (Inr (Some (to_dict E a2)), w2)"
    using second by (simp add: w2_def doc2_def)
  moreover have "files w1 p = Some doc1" by (simp add: w1)
  moreover have "files w2 p = Some doc2" by (simp add: w2_def)
  moreover have "artifacts_of doc1 name = Some (to_dict E a1)" using a1 by simp
  moreover have "artifacts_of doc2 name = Some (to_dict E a2)" using a2 by simp
  moreover have "\<forall>n. n \<noteq> name \<longrightarrow> artifacts_of doc1 n = artifacts_of (document_at w p) n
          \<and> artifacts_of doc2 n = artifacts_of doc1 n"
    using a1 a2 by simp
  moreover have "\<forall>k. k \<noteq> ''artifacts'' \<longrightarrow> map_of doc1 k = map_of (document_at w p) k
          \<and> map_of doc2 k = map_of doc1 k"
    using k1 md2 by simp
  moreover have "\<forall>q. q \<noteq> p \<longrightarrow> files w1 q = files w q \<and> files w2 q = files w1 q"
    by (simp add: w1 w2_def)
  ultimately show ?thesis by blast
qed


theorem add_twice_upsert_witness:
  "add sample_env ''m'' model_artifact None empty_world
     = (Inr (Some model_artifact), snd (add sample_env ''m'' model_artifact None empty_world)) \<and>
   (\<exists>r2 w2 doc2.
      add sample_env ''m'' retrained_artifact None
        (snd (add sample_env ''m'' model_artifact None empty_world)) = (Inr r2, w2) \<and>
      files w2 (Path ''dvc.yaml'') = Some doc2 \<and>
      artifacts_of doc2 ''m'' = Some retrained_artifact)"
proof -
  let ?w1 = "snd (add sample_env ''m'' model_artifact None empty_world)"
  have "fst (add sample_env ''m'' model_artifact None empty_world) = Inr (Some model_artifact)"
    by code_simp
  then have h: "add sample_env ''m'' model_artifact None empty_world = (Inr (Some model_artifact), ?w1)"
    by (simp add: prod_eq_iff)
  have p: "Path ''dvc.yaml'' = Path (py_or None (PROJECT_FILE sample_env))"
    by (simp add: py_or_def sample_env_def)
  from add_twice_upsert [OF h p, of retrained_artifact]
  obtain r2 w2 doc1 doc2 where
    "add sample_env ''m'' retrained_artifact None ?w1 = (Inr r2, w2)"
    "files ?w1 (Path ''dvc.yaml'') = Some doc1"
    "files w2 (Path ''dvc.yaml'') = Some doc2"
    "artifacts_of doc1 ''m'' = Some (to_dict sample_env model_artifact)"
    "artifacts_of doc2 ''m'' = Some (to_dict sample_env retrained_artifact)"
    by (elim exE conjE) (rule that)
  then have "add sample_env ''m'' retrained_artifact None ?w1 = (Inr r2, w2) \<and>
      files w2 (Path ''dvc.yaml'') = Some doc2 \<and>
      artifacts_of doc2 ''m'' = Some retrained_artifact"
    by (simp add: sample_env_def)
  then have "\<exists>r2 w2 doc2.
      add sample_env ''m'' retrained_artifact None ?w1 = (Inr r2, w2) \<and>
      files w2 (Path ''dvc.yaml'') = Some doc2 \<and>
      artifacts_of doc2 ''m'' = Some retrained_artifact"
    by blast
  with h show ?thesis by (intro conjI)
qed

section \<open>The two loops of \<open>read\<close>\<close>

lemma read_names_ok:
  assumes "map_of arts k \<noteq> None"
    and "list_all (\<lambda>item. \<not> isl (Artifact E (snd item))) blk"
  shows "\<exists>arts'. read_names E k blk log arts =
        (log @ map wrong_name_message (filter (\<lambda>name. \<not> name_is_compatible name) (map fst blk)),
         Inr arts')
      \<and> map fst arts' = map fst arts
      \<and> (\<forall>k'. k' \<noteq> k \<longrightarrow> map_of arts' k' = map_of arts k')
      \<and> map_of arts' k \<noteq> None
      \<and> (blk = [] \<longrightarrow> arts' = arts)"
  using assms
proof (induction blk arbitrary: log arts)
  case Nil
  then show ?case by simp
next
  case (Cons item blk)
  obtain name v where item: "item = (name, v)" by (cases item)
  from Cons.prems(2) item obtain a where a: "Artifact E v = Inr a"
    by (cases "Artifact E v") auto
  from Cons.prems(1) obtain inner where inner: "map_of arts k = Some inner" by auto
  let ?arts = "dict_set k (dict_set name a inner) arts"
  let ?log = "check_name_format name log"
  have step: "read_names E k (item # blk) log arts = read_names E k blk ?log ?arts"
    by (simp add: item a inner Let_def)
  have k1: "map_of ?arts k \<noteq> None" by (simp add: map_of_dict_set)
  from Cons.prems(2) have rest: "list_all (\<lambda>item. \<not> isl (Artifact E (snd item))) blk" by simp
  from Cons.IH [OF k1 rest, of ?log]
  obtain arts' where r: "read_names E k blk ?log ?arts =
        (?log @ map wrong_name_message (filter (\<lambda>name. \<not> name_is_compatible name) (map fst blk)),
         Inr arts')"
    and keys: "map fst arts' = map fst ?arts"
    and frame: "\<forall>k'. k' \<noteq> k \<longrightarrow> map_of arts' k' = map_of ?arts k'"
    and dom: "map_of arts' k \<noteq> None"
    by blast
  have kin: "k \<in> fst ` set arts" using inner by (auto dest: map_of_SomeD intro: rev_image_eqI)
  have "read_names E k (item # blk) log arts =
        (log @ map wrong_name_message (filter (\<lambda>name. \<not> name_is_compatible name) (map fst (item # blk))),
         Inr arts')"
    using step r by (simp add: item check_name_format_def)
  moreover have "map fst arts' = map fst arts" using keys kin by (simp add: keys_dict_set_old)
  moreover have "\<forall>k'. k' \<noteq> k \<longrightarrow> map_of arts' k' = map_of arts k'"
    using frame by (simp add: map_of_dict_set)
  ultimately show ?case using dom by blast
qed

lemma read_names_fail:
  assumes "map_of arts k \<noteq> None"
    and "\<not> list_all (\<lambda>item. \<not> isl (Artifact E (snd item))) blk"
  shows "isl (snd (read_names E k blk log arts))"
  using assms
proof (induction blk arbitrary: log arts)
  case Nil
  then show ?case by simp
next
  case (Cons item blk)
  obtain name v where item: "item = (name, v)" by (cases item)
  show ?case
  proof (cases "Artifact E v")
    case (Inl e)
    then show ?thesis by (simp add: item Let_def)
  next
    case (Inr a)
    from Cons.prems(1) obtain inner where inner: "map_of arts k = Some inner" by auto
    let ?arts = "dict_set k (dict_set name a inner) arts"
    have k1: "map_of ?arts k \<noteq> None" by (simp add: map_of_dict_set)
    from Cons.prems(2) Inr item
    have rest: "\<not> list_all (\<lambda>item. \<not> isl (Artifact E (snd item))) blk" by simp
    from Cons.IH [OF k1 rest, of "check_name_format name log"]
    show ?thesis by (simp add: item Inr inner Let_def)
  qed
qed


lemma read_files_fail:
  assumes "\<not> deserializes E index"
  shows "isl (snd (read_files E index log arts))"
  using assms
proof (induction index arbitrary: log arts)
  case Nil
  then show ?case by (simp add: deserializes_def)
next
  case (Cons entry index)
  obtain f blk where entry: "entry = (f, blk)" by (cases entry)
  let ?k = "relpath E f (root_dir E)"
  have k1: "map_of (dict_set ?k [] arts) ?k \<noteq> None" by (simp add: map_of_dict_set)
  show ?case
  proof (cases "list_all (\<lambda>item. \<not> isl (Artifact E (snd item))) blk")
    case False
    from read_names_fail [OF k1 False, of log]
    show ?thesis
      by (cases "read_names E ?k blk log (dict_set ?k [] arts)")
         (auto simp: entry Let_def split: sum.splits)
  next
    case True
    from read_names_ok [OF k1 True, of log]
    obtain arts' log' where r: "read_names E ?k blk log (dict_set ?k [] arts) = (log', Inr arts')"
      by blast
    from Cons.prems True have "\<not> deserializes E index" by (simp add: deserializes_def entry)
    from Cons.IH [OF this, of log' arts'] r show ?thesis by (simp add: entry Let_def)
  qed
qed

lemma read_files_ok:
  assumes "deserializes E index"
  shows "\<exists>reg. read_files E index log arts = (log @ warnings_of index, Inr reg)
      \<and> (distinct (map fst arts @ map (\<lambda>f. relpath E f (root_dir E)) (map fst index)) \<longrightarrow>
           map fst reg = map fst arts @ map (\<lambda>f. relpath E f (root_dir E)) (map fst index)
         \<and> (\<forall>k. k \<notin> (\<lambda>f. relpath E f (root_dir E)) ` fst ` set index \<longrightarrow> map_of reg k = map_of arts k)
         \<and> (\<forall>f. (f, []) \<in> set index \<longrightarrow> map_of reg (relpath E f (root_dir E)) = Some []))"
  using assms
proof (induction index arbitrary: log arts)
  case Nil
  then show ?case by (simp add: warnings_of_def)
next
  case (Cons entry index)
  obtain f blk where entry: "entry = (f, blk)" by (cases entry)
  let ?rp = "\<lambda>f. relpath E f (root_dir E)"
  let ?k = "?rp f"
  let ?arts1 = "dict_set ?k [] arts"
  have k1: "map_of ?arts1 ?k \<noteq> None" by (simp add: map_of_dict_set)
  from Cons.prems have blk: "list_all (\<lambda>item. \<not> isl (Artifact E (snd item))) blk"
    and rest: "deserializes E index"
    by (simp_all add: deserializes_def entry)
  let ?log2 = "log @ map wrong_name_message (filter (\<lambda>name. \<not> name_is_compatible name) (map fst blk))"
  from read_names_ok [OF k1 blk, of log]
  obtain arts2 where r: "read_names E ?k blk log ?arts1 = (?log2, Inr arts2)"
    and keys2: "map fst arts2 = map fst ?arts1"
    and frame2: "\<forall>k'. k' \<noteq> ?k \<longrightarrow> map_of arts2 k' = map_of ?arts1 k'"
    and empty2: "blk = [] \<longrightarrow> arts2 = ?arts1"
    by blast
  from Cons.IH [OF rest, of ?log2 arts2]
  obtain reg where rf: "read_files E index ?log2 arts2 = (?log2 @ warnings_of index, Inr reg)"
    and ih: "distinct (map fst arts2 @ map ?rp (map fst index)) \<longrightarrow>
           map fst reg = map fst arts2 @ map ?rp (map fst index)
         \<and> (\<forall>k. k \<notin> ?rp ` fst ` set index \<longrightarrow> map_of reg k = map_of arts2 k)
         \<and> (\<forall>f. (f, []) \<in> set index \<longrightarrow> map_of reg (?rp f) = Some [])"
    by blast
  have w: "?log2 @ warnings_of index = log @ warnings_of (entry # index)"
    by (simp add: warnings_of_def entry)
  have run: "read_files E (entry # index) log arts = (log @ warnings_of (entry # index), Inr reg)"
    using r rf w by (simp add: entry Let_def)
  have "map fst reg = map fst arts @ map ?rp (map fst (entry # index))
         \<and> (\<forall>k. k \<notin> ?rp ` fst ` set (entry # index) \<longrightarrow> map_of reg k = map_of arts k)
         \<and> (\<forall>f. (f, []) \<in> set (entry # index) \<longrightarrow> map_of reg (?rp f) = Some [])"
    if d: "distinct (map fst arts @ map ?rp (map fst (entry # index)))"
  proof -
    from d have new: "?k \<notin> fst ` set arts" by (auto simp: entry)
    then have keys1: "map fst ?arts1 = map fst arts @ [?k]" by (rule keys_dict_set_new)
    from d have d2: "distinct (map fst arts2 @ map ?rp (map fst index))"
      by (simp add: keys2 keys1 entry)
    from d have later: "?k \<notin> ?rp ` fst ` set index" by (auto simp: entry)
    from ih d2 have keys: "map fst reg = map fst arts2 @ map ?rp (map fst index)"
      and frame: "\<forall>k. k \<notin> ?rp ` fst ` set index \<longrightarrow> map_of reg k = map_of arts2 k"
      and empties: "\<forall>f. (f, []) \<in> set index \<longrightarrow> map_of reg (?rp f) = Some []"
      by simp_all
    have 1: "map fst reg = map fst arts @ map ?rp (map fst (entry # index))"
      using keys keys2 keys1 by (simp add: entry)
    have 2: "\<forall>k. k \<notin> ?rp ` fst ` set (entry # index) \<longrightarrow> map_of reg k = map_of arts k"
      using frame frame2 by (simp add: entry map_of_dict_set)
    have 3: "\<forall>g. (g, []) \<in> set (entry # index) \<longrightarrow> map_of reg (?rp g) = Some []"
    proof (intro allI impI)
      fix g assume "(g, []) \<in> set (entry # index)"
      then consider "g = f" "blk = []" | "(g, []) \<in> set index" by (auto simp: entry)
      then show "map_of reg (?rp g) = Some []"
      proof cases
        case 1
        with empty2 have "arts2 = ?arts1" by simp
        with frame later have "map_of reg ?k = map_of ?arts1 ?k" by simp
        with 1 show ?thesis by (simp add: map_of_dict_set)
      next
        case 2
        with empties show ?thesis by simp
      qed
    qed
    from 1 2 3 show ?thesis by blast
  qed
  with run show ?case by blast
qed

section \<open>C5: when \<open>read\<close> raises\<close>

lemma deserializes_iff:
  "deserializes E index \<longleftrightarrow>
     (\<forall>entry \<in> set index. \<forall>item \<in> set (snd entry). \<not> isl (Artifact E (snd item)))"
  by (simp add: deserializes_def list_all_iff)

text \<open>
  C5: \<open>read\<close> raises if and only if some raw artifact value of the index fails
  to deserialise. When every value deserialises, \<open>read\<close> returns a registry
  whatever the names are, having logged one warning for each name outside the
  grammar. The result of \<open>read\<close> is either the error or the registry, so a
  failed read returns no registry, partial or other.
\<close>

theorem read_raises_iff:
  "(isl (snd (read E index log)) \<longleftrightarrow>
      (\<exists>entry \<in> set index. \<exists>item \<in> set (snd entry). isl (Artifact E (snd item)))) \<and>
   ((\<forall>entry \<in> set index. \<forall>item \<in> set (snd entry). \<not> isl (Artifact E (snd item))) \<longrightarrow>
      (\<exists>reg. read E index log = (log @ warnings_of index, Inr reg)))"
proof (cases "deserializes E index")
  case True
  from read_files_ok [OF True, of log "[]"]
  obtain reg where r: "read E index log = (log @ warnings_of index, Inr reg)"
    by (auto simp: read_def)
  then have "\<not> isl (snd (read E index log))" by simp
  with True r show ?thesis by (auto simp: deserializes_iff)
next
  case False
  from read_files_fail [OF False, of log "[]"]
  have "isl (snd (read E index log))" by (simp add: read_def)
  with False show ?thesis by (auto simp: deserializes_iff)
qed

theorem read_raises_iff_witness:
  "isl (snd (read sample_env broken_index [])) \<and>
   (\<exists>reg. read sample_env sample_index [] = ([wrong_name_message ''Model_A''], Inr reg))"
proof -
  have "\<exists>entry \<in> set broken_index. \<exists>item \<in> set (snd entry). isl (Artifact sample_env (snd item))"
    by (simp add: broken_index_def sample_env_def sample_Artifact_def)
  with read_raises_iff [of sample_env broken_index "[]"]
  have a: "isl (snd (read sample_env broken_index []))" by (simp only: simp_thms)
  have "\<forall>entry \<in> set sample_index. \<forall>item \<in> set (snd entry). \<not> isl (Artifact sample_env (snd item))"
    by (simp add: sample_index_def sample_env_def sample_Artifact_def model_artifact_def
        retrained_artifact_def)
  with read_raises_iff [of sample_env sample_index "[]"]
  have "\<exists>reg. read sample_env sample_index [] = ([] @ warnings_of sample_index, Inr reg)"
    by (simp only: simp_thms)
  moreover have "warnings_of sample_index = [wrong_name_message ''Model_A'']"
    by (simp add: warnings_of_def sample_index_def incompatible_Model_A compatible_m)
  ultimately have b: "\<exists>reg. read sample_env sample_index [] = ([wrong_name_message ''Model_A''], Inr reg)"
    by simp
  from a b show ?thesis by (rule conjI)
qed

section \<open>C6: the keys of the registry\<close>

text \<open>
  C6 as stated fails: an index can hold two keys for one manifest file. Both
  have the same path relative to the project root, the second entry resets what
  the first one stored, and the registry has one key for the two entries.
\<close>

theorem read_duplicate_manifest_counterexample:
  "length duplicate_index = 2 \<and> distinct (map fst duplicate_index) \<and>
   snd (read sample_env duplicate_index []) = Inr [(''dvc.yaml'', [])]"
proof -
  have 1: "length duplicate_index = 2" by (simp add: duplicate_index_def)
  have 2: "distinct (map fst duplicate_index)" by (simp add: duplicate_index_def)
  have 3: "snd (read sample_env duplicate_index []) = Inr [(''dvc.yaml'', [])]" by code_simp
  from 1 2 3 show ?thesis by (intro conjI)
qed

text \<open>
  C6 (amended): for every project index whose manifest entries have pairwise
  distinct paths relative to the project root, a read that returns a registry
  returns one with exactly one key for each manifest entry of the index, its
  path relative to the project root, in the order of the index; and a manifest
  whose artifact block is empty is a key of the registry, mapped to the empty
  mapping.
\<close>

theorem read_registry_keys:
  assumes "distinct (map (\<lambda>f. relpath E f (root_dir E)) (map fst index))"
    and "read E index log = (log', Inr reg)"
  shows "map fst reg = map (\<lambda>f. relpath E f (root_dir E)) (map fst index) \<and>
     (\<forall>f. (f, []) \<in> set index \<longrightarrow> map_of reg (relpath E f (root_dir E)) = Some [])"
proof -
  have d: "deserializes E index"
  proof (rule ccontr)
    assume "\<not> deserializes E index"
    from read_files_fail [OF this, of log "[]"] assms(2) show False by (simp add: read_def)
  qed
  from read_files_ok [OF d, of log "[]"] assms show ?thesis by (auto simp: read_def)
qed

theorem read_registry_keys_witness:
  "distinct (map (\<lambda>f. relpath sample_env f (root_dir sample_env)) (map fst sample_index)) \<and>
   (\<exists>log' reg. read sample_env sample_index [] = (log', Inr reg) \<and>
      map fst reg = [''dvc.yaml'', ''sub/dvc.yaml''] \<and> map_of reg ''sub/dvc.yaml'' = Some [])"
proof -
  have k: "map (\<lambda>f. relpath sample_env f (root_dir sample_env)) (map fst sample_index)
      = [''dvc.yaml'', ''sub/dvc.yaml'']"
    by code_simp
  then have d: "distinct (map (\<lambda>f. relpath sample_env f (root_dir sample_env)) (map fst sample_index))"
    by simp
  have "\<not> isl (snd (read sample_env sample_index []))" by code_simp
  then obtain reg where "snd (read sample_env sample_index []) = Inr reg"
    by (cases "snd (read sample_env sample_index [])") auto
  then have r: "read sample_env sample_index [] = (fst (read sample_env sample_index []), Inr reg)"
    by (simp add: prod_eq_iff)
  have e: "(''/repo/sub/dvc.yaml'', []) \<in> set sample_index" by (simp add: sample_index_def)
  have s: "relpath sample_env ''/repo/sub/dvc.yaml'' (root_dir sample_env) = ''sub/dvc.yaml''"
    by code_simp
  from read_registry_keys [OF d r] k e s
  have "map fst reg = [''dvc.yaml'', ''sub/dvc.yaml''] \<and> map_of reg ''sub/dvc.yaml'' = Some []"
    by auto
  with r have "read sample_env sample_index [] = (fst (read sample_env sample_index []), Inr reg) \<and>
      map fst reg = [''dvc.yaml'', ''sub/dvc.yaml''] \<and> map_of reg ''sub/dvc.yaml'' = Some []"
    by (rule conjI)
  then have "\<exists>log' reg. read sample_env sample_index [] = (log', Inr reg) \<and>
      map fst reg = [''dvc.yaml'', ''sub/dvc.yaml''] \<and> map_of reg ''sub/dvc.yaml'' = Some []"
    by (intro exI)
  with d show ?thesis by (rule conjI)
qed

end
